theory Spec2Isabelle
  imports Complex_Main "HOL-Library.AList" "HOL-Library.Log_Nat"
begin

section \<open>Order book mirror: data model\<close>

text \<open>
  The embedding follows \<^verbatim>\<open>src/services/marketService.ts\<close>. A JavaScript number is
  an IEEE 754 double; a finite double is modelled by the rational it denotes. Comparisons,
  \<^verbatim>\<open>Math.abs\<close> and \<^verbatim>\<open>Math.floor\<close> are exact on doubles; every addition, subtraction,
  multiplication and division rounds its exact result to the nearest double, ties to
  even (section on double arithmetic below). The wire format carries decimal strings and
  \<^verbatim>\<open>parseFloat\<close> (a builtin) gives the double nearest to the decimal, so a price such
  as 2.3 enters the model as \<open>double (23 / 10)\<close>. The one non-finite number the code
  itself writes, the seed \<^verbatim>\<open>Infinity\<close> of the best-ask scan, is a constructor of its
  own; \<^verbatim>\<open>NaN\<close> and results of magnitude \<open>2 ^ 1024\<close> and more, which overflow to
  \<^verbatim>\<open>Infinity\<close>, are outside the model. Update ids are integers.

  A \<^verbatim>\<open>Map<number, number>\<close> is an association list with distinct keys in insertion
  order: \<^verbatim>\<open>set\<close> overwrites in place or appends (\<^const>\<open>AList.update\<close>),
  \<^verbatim>\<open>delete\<close> removes the key (\<^const>\<open>AList.delete\<close>), iteration runs front to
  back, \<^verbatim>\<open>size\<close> is the length.
\<close>

type_synonym price_map = "(rat \<times> rat) list"

text \<open>\<^verbatim>\<open>OrderEntry\<close> and \<^verbatim>\<open>OrderBookSnapshot\<close> of the types module.\<close>

record OrderEntry =
  price :: rat
  quantity :: rat
  total :: rat

record OrderBookSnapshot =
  timestamp :: int
  midPrice :: rat
  bids :: "OrderEntry list"
  asks :: "OrderEntry list"

text \<open>
  A \<^verbatim>\<open>depthUpdate\<close> message: \<^verbatim>\<open>U\<close>, \<^verbatim>\<open>u\<close> and the change lists \<^verbatim>\<open>b\<close>, \<^verbatim>\<open>a\<close>,
  each a list of (price, quantity) pairs. The handler tests \<^verbatim>\<open>if (e.b)\<close>, so a list
  may be missing: \<open>None\<close>.
\<close>

record DiffEvent =
  ev_U :: int
  ev_u :: int
  ev_b :: "(rat \<times> rat) list option"
  ev_a :: "(rat \<times> rat) list option"

text \<open>The REST depth snapshot.\<close>

record BaselineSnapshot =
  base_lastUpdateId :: int
  base_bids :: "(rat \<times> rat) list"
  base_asks :: "(rat \<times> rat) list"

text \<open>
  What arrives on the socket: text that \<^verbatim>\<open>JSON.parse\<close> rejects, a message whose
  \<^verbatim>\<open>e\<close> field is not \<^verbatim>\<open>depthUpdate\<close>, or a depth update.
\<close>

datatype message = Malformed | OtherMessage | DepthUpdate DiffEvent

text \<open>
  The variables closed over by \<^verbatim>\<open>subscribeToBinanceStream\<close>, together with the two
  pieces of the environment the handlers act on: \<open>rafQueue\<close>, the number of callbacks
  handed to \<^verbatim>\<open>requestAnimationFrame\<close> and not yet run, and \<open>delivered\<close>, the
  snapshots passed to \<^verbatim>\<open>onUpdate\<close> so far, oldest first.
\<close>

record session =
  bidMap :: price_map
  askMap :: price_map
  eventBuffer :: "DiffEvent list"
  hasSnapshot :: bool
  lastUpdateId :: int
  processing :: bool
  rafQueue :: nat
  delivered :: "OrderBookSnapshot list"

definition initial :: session where
  "initial = \<lparr>bidMap = [], askMap = [], eventBuffer = [], hasSnapshot = False,
     lastUpdateId = 0, processing = False, rafQueue = 0, delivered = []\<rparr>"

section \<open>Double arithmetic\<close>

text \<open>Rounding a rational to the nearest integer, ties to the even one.\<close>

definition rne :: "rat \<Rightarrow> int" where
  "rne x = (let n = \<lfloor>x\<rfloor>; r = x - of_int n
            in if r < 1 / 2 then n else if 1 / 2 < r then n + 1
               else if even n then n else n + 1)"

text \<open>
  The binary exponent of a positive rational \<open>x\<close>: the \<open>e\<close> with
  \<open>2 ^ e \<le> x < 2 ^ (e + 1)\<close>, found from the bit lengths of numerator and denominator.
\<close>

definition ilog2 :: "rat \<Rightarrow> int" where
  "ilog2 x = (case quotient_of x of (a, b) \<Rightarrow>
               (let d = bitlen a - bitlen b in if 2 powi d \<le> x then d else d - 1))"

text \<open>
  A double has a 53-bit significand. Its exponent is at least -1022: below
  \<open>2 ^ (-1022)\<close> the doubles are equally spaced (subnormal numbers). \<open>ulp x\<close> is the
  spacing of the doubles around \<open>x\<close>, and \<open>double x\<close> is the double nearest to \<open>x\<close>.
\<close>

definition exponent :: "rat \<Rightarrow> int" where
  "exponent x = max (ilog2 \<bar>x\<bar>) (- 1022)"

definition ulp :: "rat \<Rightarrow> rat" where
  "ulp x = 2 powi (exponent x - 52)"

definition double :: "rat \<Rightarrow> rat" where
  "double x = (if x = 0 then 0 else of_int (rne (x / ulp x)) * ulp x)"

text \<open>The four arithmetic operators of the language on doubles.\<close>

definition dadd :: "rat \<Rightarrow> rat \<Rightarrow> rat" where
  "dadd a b = double (a + b)"

definition dsub :: "rat \<Rightarrow> rat \<Rightarrow> rat" where
  "dsub a b = double (a - b)"

definition dmul :: "rat \<Rightarrow> rat \<Rightarrow> rat" where
  "dmul a b = double (a * b)"

definition ddiv :: "rat \<Rightarrow> rat \<Rightarrow> rat" where
  "ddiv a b = double (a / b)"

section \<open>Aggregator\<close>

definition AGGREGATION_BUCKET_SIZE :: rat where
  "AGGREGATION_BUCKET_SIZE = 2"

definition VISUAL_BUCKETS :: nat where
  "VISUAL_BUCKETS = 60"

text \<open>\<^verbatim>\<open>Math.floor(Math.abs(price - midPrice) / AGGREGATION_BUCKET_SIZE)\<close>\<close>

definition bucketIndex :: "rat \<Rightarrow> rat \<Rightarrow> int" where
  "bucketIndex p mid = \<lfloor>ddiv \<bar>dsub p mid\<bar> AGGREGATION_BUCKET_SIZE\<rfloor>"

text \<open>
  Step 2 of \<^verbatim>\<open>aggregateOrders\<close>: the loop over the raw map. The volumes live in a
  \<^verbatim>\<open>Float64Array\<close>; \<^verbatim>\<open>+=\<close> is a double addition.
\<close>

fun distribute :: "price_map \<Rightarrow> rat \<Rightarrow> rat list \<Rightarrow> rat list" where
  "distribute [] mid bucketVolumes = bucketVolumes"
| "distribute ((p, qty) # rest) mid bucketVolumes =
     (let index = bucketIndex p mid in
      distribute rest mid
        (if 0 \<le> index \<and> index < int VISUAL_BUCKETS
         then bucketVolumes[nat index := dadd (bucketVolumes ! nat index) qty]
         else bucketVolumes))"

text \<open>Step 3: the counting loop that builds the cumulative result.\<close>

function buildResult ::
  "rat list \<Rightarrow> bool \<Rightarrow> rat \<Rightarrow> nat \<Rightarrow> rat \<Rightarrow> OrderEntry list \<Rightarrow> OrderEntry list" where
  "buildResult bucketVolumes isBid mid i cumulativeTotal result =
     (if i < VISUAL_BUCKETS then
        (let qty = bucketVolumes ! i;
             cumulativeTotal' = dadd cumulativeTotal qty;
             bucketPrice = (if isBid then dsub mid (dmul (of_nat i) AGGREGATION_BUCKET_SIZE)
                            else dadd mid (dmul (of_nat i) AGGREGATION_BUCKET_SIZE))
         in buildResult bucketVolumes isBid mid (Suc i) cumulativeTotal'
              (result @ [\<lparr>price = bucketPrice, quantity = qty, total = cumulativeTotal'\<rparr>]))
      else result)"
  by pat_completeness auto
termination
  by (relation "measure (\<lambda>(bv, isBid, mid, i, c, r). VISUAL_BUCKETS - i)") auto

declare buildResult.simps [simp del]

definition aggregateOrders :: "price_map \<Rightarrow> bool \<Rightarrow> rat \<Rightarrow> OrderEntry list" where
  "aggregateOrders rawOrders isBid mid =
     buildResult (distribute rawOrders mid (replicate VISUAL_BUCKETS 0)) isBid mid 0 0 []"

section \<open>Store updates\<close>

text \<open>One pass of the inner loop of \<^verbatim>\<open>processEvent\<close> over a change list.\<close>

fun applyChanges :: "(rat \<times> rat) list \<Rightarrow> price_map \<Rightarrow> price_map" where
  "applyChanges [] m = m"
| "applyChanges ((p, qty) # rest) m =
     applyChanges rest (if qty = 0 then AList.delete p m else AList.update p qty m)"

definition processEvent :: "DiffEvent \<Rightarrow> session \<Rightarrow> session" where
  "processEvent e s =
     (let s1 = (case ev_b e of None \<Rightarrow> s
                | Some cs \<Rightarrow> s\<lparr>bidMap := applyChanges cs (bidMap s)\<rparr>)
      in (case ev_a e of None \<Rightarrow> s1
          | Some cs \<Rightarrow> s1\<lparr>askMap := applyChanges cs (askMap s1)\<rparr>))"

text \<open>The two \<^verbatim>\<open>forEach\<close> loops of \<^verbatim>\<open>fetchSnapshot\<close>: every pair is stored as it is.\<close>

fun loadLevels :: "(rat \<times> rat) list \<Rightarrow> price_map \<Rightarrow> price_map" where
  "loadLevels [] m = m"
| "loadLevels ((p, qty) # rest) m = loadLevels rest (AList.update p qty m)"

text \<open>
  \<^verbatim>\<open>fetchSnapshot\<close> from the point where the response is in hand. \<open>None\<close> is a failed
  fetch: the \<^verbatim>\<open>catch\<close> logs and nothing changes.
\<close>

definition fetchSnapshot :: "BaselineSnapshot option \<Rightarrow> session \<Rightarrow> session" where
  "fetchSnapshot response s =
     (case response of
        None \<Rightarrow> s
      | Some d \<Rightarrow>
         (let s1 = s\<lparr>lastUpdateId := base_lastUpdateId d\<rparr>;
              s2 = s1\<lparr>bidMap := loadLevels (base_bids d) (bidMap s1)\<rparr>;
              s3 = s2\<lparr>askMap := loadLevels (base_asks d) (askMap s2)\<rparr>;
              s4 = s3\<lparr>hasSnapshot := True\<rparr>;
              validEvents = filter (\<lambda>e. ev_u e > lastUpdateId s4) (eventBuffer s4);
              s5 = fold processEvent validEvents s4
          in s5\<lparr>eventBuffer := []\<rparr>))"

section \<open>Snapshot assembly and throttle\<close>

datatype bound = Finite rat | Infinity

fun scanBestBid :: "rat list \<Rightarrow> rat \<Rightarrow> rat" where
  "scanBestBid [] bestBid = bestBid"
| "scanBestBid (k # ks) bestBid = scanBestBid ks (if k > bestBid then k else bestBid)"

fun below :: "rat \<Rightarrow> bound \<Rightarrow> bool" where
  "below k Infinity = True"
| "below k (Finite x) = (k < x)"

fun scanBestAsk :: "rat list \<Rightarrow> bound \<Rightarrow> bound" where
  "scanBestAsk [] bestAsk = bestAsk"
| "scanBestAsk (k # ks) bestAsk = scanBestAsk ks (if below k bestAsk then Finite k else bestAsk)"

text \<open>
  \<^verbatim>\<open>emitUpdate\<close>: the snapshot handed to \<^verbatim>\<open>onUpdate\<close>, or \<open>None\<close> at an early
  return. \<open>now\<close> is the reading of \<^verbatim>\<open>Date.now()\<close>.
\<close>

definition emitUpdate :: "int \<Rightarrow> session \<Rightarrow> OrderBookSnapshot option" where
  "emitUpdate now s =
     (if length (bidMap s) = 0 \<or> length (askMap s) = 0 then None
      else
        (let bestBid = scanBestBid (map fst (bidMap s)) 0;
             bestAsk = scanBestAsk (map fst (askMap s)) Infinity
         in if bestBid = 0 then None
            else (case bestAsk of
                    Infinity \<Rightarrow> None
                  | Finite ask \<Rightarrow>
                      (let mid = ddiv (dadd bestBid ask) 2
                       in Some \<lparr>timestamp = now, midPrice = mid,
                                bids = aggregateOrders (bidMap s) True mid,
                                asks = aggregateOrders (askMap s) False mid\<rparr>))))"

text \<open>\<^verbatim>\<open>ws.onmessage\<close>. A parse error is caught and logged; other messages are ignored.\<close>

fun onmessage :: "message \<Rightarrow> session \<Rightarrow> session" where
  "onmessage Malformed s = s"
| "onmessage OtherMessage s = s"
| "onmessage (DepthUpdate e) s =
     (if \<not> hasSnapshot s then s\<lparr>eventBuffer := eventBuffer s @ [e]\<rparr>
      else
        (let s1 = processEvent e s
         in if \<not> processing s1
            then s1\<lparr>processing := True, rafQueue := Suc (rafQueue s1)\<rparr>
            else s1))"

text \<open>The callback given to \<^verbatim>\<open>requestAnimationFrame\<close>: emit, then clear the flag.\<close>

definition frameCallback :: "int \<Rightarrow> session \<Rightarrow> session" where
  "frameCallback now s =
     (let s1 = (case emitUpdate now s of None \<Rightarrow> s
                | Some snap \<Rightarrow> s\<lparr>delivered := delivered s @ [snap]\<rparr>)
      in s1\<lparr>processing := False\<rparr>)"

text \<open>A display tick: the browser runs every callback queued for this frame.\<close>

fun runCallbacks :: "nat \<Rightarrow> int \<Rightarrow> session \<Rightarrow> session" where
  "runCallbacks 0 now s = s"
| "runCallbacks (Suc n) now s = runCallbacks n now (frameCallback now s)"

definition animationFrame :: "int \<Rightarrow> session \<Rightarrow> session" where
  "animationFrame now s = runCallbacks (rafQueue s) now (s\<lparr>rafQueue := 0\<rparr>)"

section \<open>Predicates used in the statements\<close>

text \<open>
  Conditions on inputs and stores that the theorems below speak about: a side map all of
  whose quantities are positive, a change list (an event, a message) none of whose
  quantities is negative.
\<close>

definition positiveLevels :: "price_map \<Rightarrow> bool" where
  "positiveLevels m = list_all (\<lambda>(p, q). 0 < q) m"

definition nonnegChanges :: "(rat \<times> rat) list option \<Rightarrow> bool" where
  "nonnegChanges cs = (case cs of None \<Rightarrow> True | Some xs \<Rightarrow> list_all (\<lambda>(p, q). 0 \<le> q) xs)"

definition nonnegEvent :: "DiffEvent \<Rightarrow> bool" where
  "nonnegEvent e = (nonnegChanges (ev_b e) \<and> nonnegChanges (ev_a e))"

fun nonnegMessage :: "message \<Rightarrow> bool" where
  "nonnegMessage (DepthUpdate e) = nonnegEvent e"
| "nonnegMessage _ = True"

definition positiveBook :: "session \<Rightarrow> bool" where
  "positiveBook s = (positiveLevels (bidMap s) \<and> positiveLevels (askMap s))"

section \<open>Properties of double arithmetic\<close>

text \<open>
  Rounding to the nearest integer is monotone, odd, exact on integers and off by at most
  a half. The exponent function finds the binade. From these: rounding to the nearest
  double is monotone, odd, the identity on doubles, exact on integers below \<open>2 ^ 53\<close>,
  and off by at most half the spacing.
\<close>

lemma rne_of_int: "rne (of_int k) = k"
  by (simp add: rne_def)

lemma rne_bounds: "\<lfloor>x\<rfloor> \<le> rne x \<and> rne x \<le> \<lfloor>x\<rfloor> + 1"
  by (simp add: rne_def Let_def)

lemma rne_err: "\<bar>of_int (rne x) - x\<bar> \<le> 1 / 2"
proof -
  define n where "n = \<lfloor>x\<rfloor>"
  have b: "of_int n \<le> x" "x < of_int n + 1" unfolding n_def by linarith+
  consider "x - of_int n < 1 / 2" | "1 / 2 < x - of_int n" | "x - of_int n = 1 / 2"
    by linarith
  then show ?thesis
  proof cases
    case 1
    then have "rne x = n" by (simp add: rne_def n_def)
    with 1 b show ?thesis by simp
  next
    case 2
    then have "rne x = n + 1" by (simp add: rne_def n_def)
    with 2 b show ?thesis by simp
  next
    case 3
    have "rne x = n \<or> rne x = n + 1"
      using rne_bounds [of x] unfolding n_def by linarith
    with 3 show ?thesis by auto
  qed
qed

lemma rne_mono:
  assumes "x \<le> y"
  shows "rne x \<le> rne y"
proof (cases "\<lfloor>x\<rfloor> = \<lfloor>y\<rfloor>")
  case True
  with assms show ?thesis
    by (auto simp: rne_def Let_def)
next
  case False
  with assms have "\<lfloor>x\<rfloor> < \<lfloor>y\<rfloor>" using floor_mono [of x y] by linarith
  then show ?thesis
    using rne_bounds [of x] rne_bounds [of y] by linarith
qed

lemma rne_minus: "rne (- x) = - rne x"
proof (cases "x \<in> \<int>")
  case True
  then obtain k where "x = of_int k" by (auto elim: Ints_cases)
  then show ?thesis
    using rne_of_int [of k] rne_of_int [of "- k"] by simp
next
  case False
  have ne: "x \<noteq> of_int \<lfloor>x\<rfloor>"
  proof
    assume a: "x = of_int \<lfloor>x\<rfloor>"
    have "x \<in> \<int>" by (subst a) (rule Ints_of_int)
    with False show False by simp
  qed
  then have fl: "\<lfloor>- x\<rfloor> = - \<lfloor>x\<rfloor> - 1"
    by (simp add: floor_minus ceiling_altdef)
  have b: "of_int \<lfloor>x\<rfloor> < x" "x < of_int \<lfloor>x\<rfloor> + 1"
    using ne of_int_floor_le [of x] by linarith+
  show ?thesis
    unfolding rne_def Let_def fl
    using b by (auto simp: algebra_simps)
qed


lemma ilog2_bounds:
  assumes "0 < x"
  shows "2 powi (ilog2 x) \<le> x \<and> x < 2 powi (ilog2 x + 1)"
proof -
  obtain a b where q: "quotient_of x = (a, b)" by (cases "quotient_of x")
  have b: "0 < b" using q by (rule quotient_of_denom_pos)
  have x: "x = of_int a / of_int b" using q by (rule quotient_of_div)
  have a: "0 < a" using assms b x by (simp add: zero_less_divide_iff)
  define la lb where "la = bitlen a" and "lb = bitlen b"
  have la: "1 \<le> la" and lb: "1 \<le> lb"
    using a b by (auto simp: la_def lb_def bitlen_alt_def)
  have "2 ^ nat (la - 1) \<le> a" "a < 2 ^ nat la" "2 ^ nat (lb - 1) \<le> b" "b < 2 ^ nat lb"
    using bitlen_bounds [OF a] bitlen_bounds [OF b] by (simp_all add: la_def lb_def)
  then have "(of_int (2 ^ nat (la - 1)) :: rat) \<le> of_int a" "(of_int a :: rat) < of_int (2 ^ nat la)"
    "(of_int (2 ^ nat (lb - 1)) :: rat) \<le> of_int b" "(of_int b :: rat) < of_int (2 ^ nat lb)"
    by (simp_all only: of_int_le_iff of_int_less_iff)
  then have ra: "(2::rat) powi (la - 1) \<le> of_int a" "(of_int a :: rat) < 2 powi la"
    and rb: "(2::rat) powi (lb - 1) \<le> of_int b" "(of_int b :: rat) < 2 powi lb"
    using la lb by (simp_all add: power_int_nonneg_exp)
  have bpos: "(0::rat) < of_int b" using b by simp
  have lo: "(2::rat) powi (la - lb - 1) \<le> x"
  proof -
    have "(2::rat) powi (la - lb - 1) * of_int b \<le> 2 powi (la - lb - 1) * 2 powi lb"
      using rb(2) by (intro mult_left_mono) simp_all
    also have "\<dots> = 2 powi (la - 1)"
      by (simp flip: power_int_add)
    also have "\<dots> \<le> of_int a" by (rule ra(1))
    finally show ?thesis using bpos by (simp add: x pos_le_divide_eq)
  qed
  have hi: "x < (2::rat) powi (la - lb + 1)"
  proof -
    have "(of_int a :: rat) < 2 powi la" by (rule ra(2))
    also have "\<dots> = 2 powi (la - lb + 1) * 2 powi (lb - 1)"
      by (simp flip: power_int_add)
    also have "\<dots> \<le> 2 powi (la - lb + 1) * of_int b"
      using rb(1) by (intro mult_left_mono) simp_all
    finally show ?thesis using bpos by (simp add: x pos_divide_less_eq)
  qed
  show ?thesis
  proof (cases "(2::rat) powi (la - lb) \<le> x")
    case True
    then have "ilog2 x = la - lb" by (simp add: ilog2_def q la_def lb_def)
    with True hi show ?thesis by simp
  next
    case False
    then have "ilog2 x = la - lb - 1" by (simp add: ilog2_def q la_def lb_def)
    with False lo show ?thesis by simp
  qed
qed

lemma ilog2_unique:
  assumes "0 < x" and "2 powi e \<le> x" and "x < 2 powi (e + 1)"
  shows "ilog2 x = e"
proof (rule antisym)
  show "ilog2 x \<le> e"
  proof (rule ccontr)
    assume "\<not> ilog2 x \<le> e"
    then have "e + 1 \<le> ilog2 x" by simp
    then have "(2::rat) powi (e + 1) \<le> 2 powi (ilog2 x)" by (intro power_int_increasing) simp_all
    with ilog2_bounds [OF assms(1)] assms(3) show False by simp
  qed
  show "e \<le> ilog2 x"
  proof (rule ccontr)
    assume "\<not> e \<le> ilog2 x"
    then have "ilog2 x + 1 \<le> e" by simp
    then have "(2::rat) powi (ilog2 x + 1) \<le> 2 powi e" by (intro power_int_increasing) simp_all
    with ilog2_bounds [OF assms(1)] assms(2) show False by simp
  qed
qed

lemma ilog2_mono:
  assumes "0 < x" and "x \<le> y"
  shows "ilog2 x \<le> ilog2 y"
proof (rule ccontr)
  assume "\<not> ilog2 x \<le> ilog2 y"
  then have "ilog2 y + 1 \<le> ilog2 x" by simp
  then have "(2::rat) powi (ilog2 y + 1) \<le> 2 powi (ilog2 x)" by (intro power_int_increasing) simp_all
  moreover have "0 < y" using assms by simp
  ultimately show False
    using ilog2_bounds [OF assms(1)] ilog2_bounds [OF \<open>0 < y\<close>] assms(2) by simp
qed


lemma ulp_pos: "0 < ulp x"
  by (simp add: ulp_def)

lemma ulp_minus: "ulp (- x) = ulp x"
  by (simp add: ulp_def exponent_def)

lemma double_minus: "double (- x) = - double x"
  by (simp add: double_def ulp_minus rne_minus)

lemma double_zero: "double 0 = 0"
  by (simp add: double_def)

lemma double_nonneg:
  assumes "0 \<le> x"
  shows "0 \<le> double x"
proof -
  have "0 \<le> x / ulp x" using assms ulp_pos [of x] by simp
  then have "rne 0 \<le> rne (x / ulp x)" by (rule rne_mono)
  then have "0 \<le> rne (x / ulp x)" using rne_of_int [of 0] by simp
  then show ?thesis using ulp_pos [of x] by (simp add: double_def)
qed

lemma double_err: "\<bar>double x - x\<bar> \<le> ulp x / 2"
proof (cases "x = 0")
  case True
  then show ?thesis using ulp_pos [of x] by (simp add: double_def)
next
  case False
  have "double x - x = (of_int (rne (x / ulp x)) - x / ulp x) * ulp x"
    using ulp_pos [of x] False by (simp add: double_def left_diff_distrib)
  then have "\<bar>double x - x\<bar> = \<bar>of_int (rne (x / ulp x)) - x / ulp x\<bar> * ulp x"
    using ulp_pos [of x] by (simp add: abs_mult)
  also have "\<dots> \<le> (1 / 2) * ulp x"
    using rne_err [of "x / ulp x"] ulp_pos [of x] by (intro mult_right_mono) simp_all
  finally show ?thesis by simp
qed

lemma exponent_pos:
  assumes "0 < x"
  shows "x < 2 powi (exponent x + 1)"
    and "- 1022 \<le> ilog2 x \<Longrightarrow> exponent x = ilog2 x \<and> 2 powi (exponent x) \<le> x"
    and "ilog2 x < - 1022 \<Longrightarrow> exponent x = - 1022"
proof -
  have "x < 2 powi (ilog2 x + 1)" using ilog2_bounds [OF assms] by simp
  also have "\<dots> \<le> 2 powi (exponent x + 1)"
    using assms by (intro power_int_increasing) (simp_all add: exponent_def)
  finally show "x < 2 powi (exponent x + 1)" .
  show "- 1022 \<le> ilog2 x \<Longrightarrow> exponent x = ilog2 x \<and> 2 powi (exponent x) \<le> x"
    using ilog2_bounds [OF assms] assms by (simp add: exponent_def)
  show "ilog2 x < - 1022 \<Longrightarrow> exponent x = - 1022"
    using assms by (simp add: exponent_def)
qed

lemma exponent_eqI:
  assumes "0 < d" and "d < 2 powi (e + 1)" and "2 powi e \<le> d \<or> e = - 1022" and "- 1022 \<le> e"
  shows "exponent d = e"
proof (cases "2 powi e \<le> d")
  case True
  then have "ilog2 d = e" using assms(1,2) by (intro ilog2_unique)
  then show ?thesis using assms(1,4) by (simp add: exponent_def)
next
  case False
  with assms(3) have e: "e = - 1022" by simp
  have "ilog2 d < e"
  proof (rule ccontr)
    assume "\<not> ilog2 d < e"
    then have "(2::rat) powi e \<le> 2 powi (ilog2 d)" by (intro power_int_increasing) simp_all
    with ilog2_bounds [OF assms(1)] False show False by simp
  qed
  then show ?thesis using assms(1) e by (simp add: exponent_def)
qed

lemma scaled_bounds:
  assumes "0 < x"
  shows "x / ulp x < 2 ^ 53"
    and "- 1022 \<le> ilog2 x \<Longrightarrow> 2 ^ 52 \<le> x / ulp x"
proof -
  have u: "ulp x * 2 ^ 53 = 2 powi (exponent x + 1)"
    by (simp add: ulp_def power_int_diff power_int_add)
  show "x / ulp x < 2 ^ 53"
    using exponent_pos(1) [OF assms] ulp_pos [of x] u by (simp add: pos_divide_less_eq mult.commute)
  assume "- 1022 \<le> ilog2 x"
  then have "2 powi (exponent x) \<le> x" using exponent_pos(2) [OF assms] by auto
  moreover have "ulp x * 2 ^ 52 = 2 powi (exponent x)"
    by (simp add: ulp_def power_int_diff)
  ultimately show "2 ^ 52 \<le> x / ulp x"
    using ulp_pos [of x] by (simp add: pos_le_divide_eq mult.commute)
qed


lemma double_pos_bounds:
  assumes "0 < x"
  shows "double x \<le> 2 powi (exponent x + 1)"
    and "- 1022 \<le> ilog2 x \<Longrightarrow> 2 powi (exponent x) \<le> double x"
proof -
  have ne: "x \<noteq> 0" using assms by simp
  have "rne (x / ulp x) \<le> rne (of_int (2 ^ 53))"
    using scaled_bounds(1) [OF assms] by (intro rne_mono) simp
  then have "rne (x / ulp x) \<le> 2 ^ 53" by (simp only: rne_of_int)
  then have "(of_int (rne (x / ulp x)) :: rat) \<le> of_int (2 ^ 53)" by (simp only: of_int_le_iff)
  then have "of_int (rne (x / ulp x)) * ulp x \<le> 2 ^ 53 * ulp x"
    using ulp_pos [of x] by (intro mult_right_mono) simp_all
  also have "\<dots> = 2 powi (exponent x + 1)"
    by (simp add: ulp_def power_int_diff power_int_add)
  finally show "double x \<le> 2 powi (exponent x + 1)" by (simp add: double_def ne)
  assume "- 1022 \<le> ilog2 x"
  then have "rne (of_int (2 ^ 52)) \<le> rne (x / ulp x)"
    using scaled_bounds(2) [OF assms] by (intro rne_mono) simp
  then have "2 ^ 52 \<le> rne (x / ulp x)" by (simp only: rne_of_int)
  then have "(of_int (2 ^ 52) :: rat) \<le> of_int (rne (x / ulp x))" by (simp only: of_int_le_iff)
  then have "2 ^ 52 * ulp x \<le> of_int (rne (x / ulp x)) * ulp x"
    using ulp_pos [of x] by (intro mult_right_mono) simp_all
  moreover have "2 ^ 52 * ulp x = 2 powi (exponent x)"
    by (simp add: ulp_def power_int_diff)
  ultimately show "2 powi (exponent x) \<le> double x" by (simp add: double_def ne)
qed

lemma exponent_mono:
  assumes "0 < x" and "x \<le> y"
  shows "exponent x \<le> exponent y"
  using ilog2_mono [OF assms] assms by (simp add: exponent_def)

lemma double_mono_pos:
  assumes "0 < x" and "x \<le> y"
  shows "double x \<le> double y"
proof (cases "exponent x = exponent y")
  case True
  then have u: "ulp x = ulp y" by (simp add: ulp_def)
  have "x / ulp y \<le> y / ulp y" using assms(2) ulp_pos [of y] by (simp add: divide_right_mono)
  then have "rne (x / ulp y) \<le> rne (y / ulp y)" by (rule rne_mono)
  then have "(of_int (rne (x / ulp y)) :: rat) \<le> of_int (rne (y / ulp y))" by (simp only: of_int_le_iff)
  then have "of_int (rne (x / ulp y)) * ulp y \<le> of_int (rne (y / ulp y)) * ulp y"
    using ulp_pos [of y] by (intro mult_right_mono) simp_all
  then show ?thesis using assms by (simp add: double_def u)
next
  case False
  have y: "0 < y" using assms by simp
  from False exponent_mono [OF assms] have lt: "exponent x < exponent y" by simp
  have "- 1022 \<le> exponent x" by (simp add: exponent_def)
  with lt have "- 1022 < exponent y" by simp
  then have normal: "- 1022 \<le> ilog2 y" using y by (simp add: exponent_def)
  have "double x \<le> 2 powi (exponent x + 1)" by (rule double_pos_bounds(1) [OF assms(1)])
  also have "\<dots> \<le> 2 powi (exponent y)" using lt by (intro power_int_increasing) simp_all
  also have "\<dots> \<le> double y" by (rule double_pos_bounds(2) [OF y normal])
  finally show ?thesis .
qed

lemma double_mono:
  assumes "x \<le> y"
  shows "double x \<le> double y"
proof -
  consider "0 < x" | "x \<le> 0" "0 \<le> y" | "y < 0" by linarith
  then show ?thesis
  proof cases
    case 1
    then show ?thesis using assms by (rule double_mono_pos)
  next
    case 2
    then have "double x \<le> 0" using double_nonneg [of "- x"] by (simp add: double_minus)
    moreover have "0 \<le> double y" using 2 by (intro double_nonneg)
    ultimately show ?thesis by simp
  next
    case 3
    then have "double (- y) \<le> double (- x)" using assms by (intro double_mono_pos) simp_all
    then show ?thesis by (simp add: double_minus)
  qed
qed

lemma double_fixed_pos:
  assumes "0 < k" and "x = of_int k * 2 powi (e - 52)" and "k \<le> 2 ^ 53"
    and "2 ^ 52 \<le> k \<or> e = - 1022" and "- 1022 \<le> e"
  shows "double x = x"
proof (cases "k = 2 ^ 53")
  case True
  then have x: "x = 2 powi (e + 1)" by (simp add: assms(2) power_int_diff power_int_add)
  then have "ilog2 x = e + 1" by (intro ilog2_unique) (simp_all add: power_int_add)
  then have "exponent x = e + 1" using assms(5) x by (simp add: exponent_def)
  then have ux: "ulp x = 2 powi (e - 51)" by (simp add: ulp_def)
  have "x / ulp x = x / 2 powi (e - 51)" by (simp only: ux)
  also have "\<dots> = 2 powi (e + 1) / 2 powi (e - 51)" by (simp only: x)
  also have "\<dots> = 2 powi 52" by (simp flip: power_int_diff)
  finally have sc: "x / ulp x = of_int (2 ^ 52)" by simp
  have r: "rne (x / ulp x) = 2 ^ 52" unfolding sc by (rule rne_of_int)
  have p: "of_int (2 ^ 52) * 2 powi (e - 51) = (2::rat) powi (e + 1)"
    by (simp add: power_int_diff power_int_add)
  have "x \<noteq> 0" by (simp add: x)
  then have "double x = of_int (rne (x / ulp x)) * ulp x" by (simp add: double_def)
  also have "\<dots> = of_int (2 ^ 52) * ulp x" by (simp only: r)
  also have "\<dots> = of_int (2 ^ 52) * 2 powi (e - 51)" by (simp only: ux)
  also have "\<dots> = 2 powi (e + 1)" by (rule p)
  also have "\<dots> = x" by (simp only: x)
  finally show ?thesis .
next
  case False
  with assms(3) have k: "k < 2 ^ 53" by simp
  have u: "(0::rat) < 2 powi (e - 52)" by simp
  have pos: "0 < x" using assms(1) by (simp add: assms(2))
  have "(of_int k :: rat) < of_int (2 ^ 53)" using k by (simp only: of_int_less_iff)
  then have "x < 2 ^ 53 * 2 powi (e - 52)"
    unfolding assms(2) using u by (intro mult_strict_right_mono) simp_all
  also have "\<dots> = 2 powi (e + 1)" by (simp add: power_int_diff power_int_add)
  finally have hi: "x < 2 powi (e + 1)" .
  have lo: "2 powi e \<le> x \<or> e = - 1022"
  proof (cases "2 ^ 52 \<le> k")
    case True
    then have "(of_int (2 ^ 52) :: rat) \<le> of_int k" by (simp only: of_int_le_iff)
    then have "2 ^ 52 * 2 powi (e - 52) \<le> x"
      unfolding assms(2) by (intro mult_right_mono) simp_all
    moreover have "(2::rat) ^ 52 * 2 powi (e - 52) = 2 powi e" by (simp add: power_int_diff)
    ultimately show ?thesis by simp
  next
    case False
    with assms(4) show ?thesis by simp
  qed
  have "exponent x = e" using pos hi lo assms(5) by (rule exponent_eqI)
  then have ux: "ulp x = 2 powi (e - 52)" by (simp add: ulp_def)
  then have "x / ulp x = of_int k" by (simp add: assms(2))
  then have "rne (x / ulp x) = k" by (simp only: rne_of_int)
  then show ?thesis using pos ux by (simp add: double_def assms(2))
qed

lemma double_idem: "double (double x) = double x"
proof -
  have pos: "double (double x) = double x" if "0 < x" for x
  proof -
    define k where "k = rne (x / ulp x)"
    have d: "double x = of_int k * 2 powi (exponent x - 52)"
      using that by (simp add: double_def k_def ulp_def)
    have "rne 0 \<le> rne (x / ulp x)" using that ulp_pos [of x] by (intro rne_mono) simp
    then have k0: "0 \<le> k" using rne_of_int [of 0] by (simp add: k_def)
    show ?thesis
    proof (cases "k = 0")
      case True
      then show ?thesis by (simp add: d double_zero)
    next
      case False
      with k0 have kpos: "0 < k" by simp
      have k53: "k \<le> 2 ^ 53"
      proof -
        have "rne (x / ulp x) \<le> rne (of_int (2 ^ 53))"
          using scaled_bounds(1) [OF that] by (intro rne_mono) simp
        then have "rne (x / ulp x) \<le> 2 ^ 53" by (simp only: rne_of_int)
        then show ?thesis by (simp add: k_def)
      qed
      have low: "2 ^ 52 \<le> k \<or> exponent x = - 1022"
      proof (cases "- 1022 \<le> ilog2 x")
        case True
        then have "rne (of_int (2 ^ 52)) \<le> rne (x / ulp x)"
          using scaled_bounds(2) [OF that] by (intro rne_mono) simp
        then have "2 ^ 52 \<le> rne (x / ulp x)" by (simp only: rne_of_int)
        then show ?thesis by (simp add: k_def)
      next
        case False
        then show ?thesis using exponent_pos(3) [OF that] by simp
      qed
      have "- 1022 \<le> exponent x" by (simp add: exponent_def)
      with kpos d k53 low show ?thesis by (rule double_fixed_pos)
    qed
  qed
  consider "0 < x" | "x = 0" | "x < 0" by linarith
  then show ?thesis
  proof cases
    case 1
    then show ?thesis by (rule pos)
  next
    case 2
    then show ?thesis by (simp add: double_zero)
  next
    case 3
    then have "double (double (- x)) = double (- x)" by (intro pos) simp
    then show ?thesis by (simp add: double_minus)
  qed
qed

lemma double_of_nat:
  assumes "n < 2 ^ 53"
  shows "double (of_nat n) = of_nat n"
proof (cases "n = 0")
  case True
  then show ?thesis by (simp add: double_zero)
next
  case False
  define x :: rat where "x = of_nat n"
  have pos: "0 < x" using False by (simp add: x_def)
  have one: "1 \<le> x" using False by (simp add: x_def)
  have "(of_nat n :: rat) < of_nat (2 ^ 53)" using assms by (simp only: of_nat_less_iff)
  then have lt: "x < 2 ^ 53" by (simp add: x_def)
  have e0: "0 \<le> ilog2 x"
  proof (rule ccontr)
    assume "\<not> 0 \<le> ilog2 x"
    then have "ilog2 x + 1 \<le> 0" by simp
    then have "(2::rat) powi (ilog2 x + 1) \<le> 2 powi 0" by (intro power_int_increasing) simp_all
    with ilog2_bounds [OF pos] one show False by simp
  qed
  have e52: "ilog2 x \<le> 52"
  proof (rule ccontr)
    assume "\<not> ilog2 x \<le> 52"
    then have "53 \<le> ilog2 x" by simp
    then have "(2::rat) powi 53 \<le> 2 powi (ilog2 x)" by (intro power_int_increasing) simp_all
    with ilog2_bounds [OF pos] lt show False by simp
  qed
  have ex: "exponent x = ilog2 x" using e0 pos by (simp add: exponent_def)
  define m where "m = nat (52 - ilog2 x)"
  have "ulp x = 2 powi (- int m)" using e52 by (simp add: ulp_def ex m_def)
  then have u: "ulp x = 1 / 2 ^ m" by (simp add: power_int_minus_divide)
  then have "x / ulp x = of_int (int (n * 2 ^ m))" by (simp add: x_def)
  then have "rne (x / ulp x) = int (n * 2 ^ m)" by (simp only: rne_of_int)
  then have "double x = x" using pos u by (simp add: double_def x_def)
  then show ?thesis by (simp add: x_def)
qed

text \<open>Small integers are doubles.\<close>

lemma double_numeral:
  "(numeral k :: nat) < 2 ^ 53 \<Longrightarrow> double (numeral k) = numeral k"
  using double_of_nat [of "numeral k"] by simp

lemma double_one: "double 1 = 1"
  using double_of_nat [of 1] by simp

section \<open>Properties of the aggregator\<close>

text \<open>
  The two loops of \<^const>\<open>aggregateOrders\<close> in closed form: the volume array after the
  first loop, and the entry the second loop writes at each index. Sums are left folds of
  the double addition, in the order the loops run.
\<close>

lemma length_distribute: "length (distribute raw mid bv) = length bv"
  by (induction raw mid bv rule: distribute.induct) (simp_all add: Let_def)

lemma distribute_nth:
  "i < VISUAL_BUCKETS \<Longrightarrow> length bv = VISUAL_BUCKETS \<Longrightarrow>
   distribute raw mid bv ! i =
     foldl dadd (bv ! i) (map snd (filter (\<lambda>(p, q). bucketIndex p mid = int i) raw))"
proof (induction raw mid bv rule: distribute.induct)
  case (1 mid bv)
  then show ?case by simp
next
  case (2 p qty rest mid bv)
  show ?case
  proof (cases "0 \<le> bucketIndex p mid \<and> bucketIndex p mid < int VISUAL_BUCKETS")
    case True
    then have n: "nat (bucketIndex p mid) < length bv" using "2.prems" by (simp add: nat_less_iff)
    from True "2.IH"[OF refl] "2.prems"
    show ?thesis using n
      by (cases "bucketIndex p mid = int i") (auto simp: Let_def nth_list_update)
  next
    case False
    with 2 show ?thesis by (auto simp: Let_def)
  qed
qed

lemma length_buildResult:
  "length (buildResult bv isBid mid i c res) = length res + (VISUAL_BUCKETS - i)"
proof (induction bv isBid mid i c res rule: buildResult.induct)
  case (1 bv isBid mid i c res)
  show ?case
  proof (cases "i < VISUAL_BUCKETS")
    case True
    with 1 show ?thesis by (subst buildResult.simps) (simp add: Let_def)
  next
    case False
    then show ?thesis by (subst buildResult.simps) simp
  qed
qed

lemma buildResult_nth_old:
  "j < length res \<Longrightarrow> buildResult bv isBid mid i c res ! j = res ! j"
proof (induction bv isBid mid i c res rule: buildResult.induct)
  case (1 bv isBid mid i c res)
  show ?case
  proof (cases "i < VISUAL_BUCKETS")
    case True
    with 1 show ?thesis by (subst buildResult.simps) (simp add: Let_def nth_append)
  next
    case False
    then show ?thesis by (subst buildResult.simps) simp
  qed
qed

lemma buildResult_nth_new:
  "length res = i \<Longrightarrow> i \<le> j \<Longrightarrow> j < VISUAL_BUCKETS \<Longrightarrow>
   buildResult bv isBid mid i c res ! j =
     \<lparr>price = (if isBid then dsub mid (dmul (of_nat j) AGGREGATION_BUCKET_SIZE)
               else dadd mid (dmul (of_nat j) AGGREGATION_BUCKET_SIZE)),
      quantity = bv ! j,
      total = foldl (\<lambda>c k. dadd c (bv ! k)) c [i..<Suc j]\<rparr>"
proof (induction bv isBid mid i c res rule: buildResult.induct)
  case (1 bv isBid mid i c res)
  from 1(3,4) have lt: "i < VISUAL_BUCKETS" by simp
  show ?case
  proof (cases "i = j")
    case True
    with lt 1(2) show ?thesis
      by (subst buildResult.simps) (simp add: Let_def buildResult_nth_old nth_append)
  next
    case False
    with 1(3) have "Suc i \<le> j" by simp
    moreover have "[i..<Suc j] = i # [Suc i..<Suc j]" using 1(3) by (simp add: upt_conv_Cons)
    ultimately show ?thesis using lt 1(1)[OF lt refl refl refl] 1(2,4)
      by (subst buildResult.simps) (simp add: Let_def)
  qed
qed

lemma aggregateOrders_length: "length (aggregateOrders raw isBid mid) = VISUAL_BUCKETS"
  by (simp add: aggregateOrders_def length_buildResult)

text \<open>The loop counter times the bucket size is a small integer, hence exact.\<close>

lemma bucket_offset:
  assumes "i < VISUAL_BUCKETS"
  shows "dmul (of_nat i) AGGREGATION_BUCKET_SIZE = of_nat i * 2"
proof -
  have "i * 2 < 2 ^ 53" using assms by (simp add: VISUAL_BUCKETS_def)
  then have "double (of_nat (i * 2)) = of_nat (i * 2)" by (rule double_of_nat)
  then show ?thesis by (simp add: dmul_def AGGREGATION_BUCKET_SIZE_def)
qed

lemma aggregateOrders_nth:
  assumes "i < VISUAL_BUCKETS"
  shows "aggregateOrders raw isBid mid ! i =
     \<lparr>price = (if isBid then double (mid - of_nat i * 2) else double (mid + of_nat i * 2)),
      quantity = foldl dadd 0 (map snd (filter (\<lambda>(p, q). bucketIndex p mid = int i) raw)),
      total = foldl (\<lambda>c k. dadd c (distribute raw mid (replicate VISUAL_BUCKETS 0) ! k)) 0
                [0..<Suc i]\<rparr>"
proof -
  have "distribute raw mid (replicate VISUAL_BUCKETS 0) ! i =
      foldl dadd 0 (map snd (filter (\<lambda>(p, q). bucketIndex p mid = int i) raw))"
    using assms by (simp add: distribute_nth)
  then show ?thesis
    using assms unfolding aggregateOrders_def
    by (simp only: buildResult_nth_new [OF _ le0 assms] list.size bucket_offset dsub_def dadd_def)
qed

lemma foldl_dadd_nonneg:
  "0 \<le> a \<Longrightarrow> \<forall>q \<in> set qs. 0 \<le> q \<Longrightarrow> 0 \<le> foldl dadd a qs"
proof (induction qs arbitrary: a)
  case Nil
  then show ?case by simp
next
  case (Cons q qs)
  from Cons.prems have "0 \<le> dadd a q" by (simp add: dadd_def double_nonneg)
  with Cons show ?case by simp
qed

lemma distribute_nonneg:
  assumes "\<forall>(p, q) \<in> set raw. 0 \<le> q" and "i < VISUAL_BUCKETS"
  shows "0 \<le> distribute raw mid (replicate VISUAL_BUCKETS 0) ! i"
proof -
  have "0 \<le> foldl dadd 0 (map snd (filter (\<lambda>(p, q). bucketIndex p mid = int i) raw))"
    using assms(1) by (intro foldl_dadd_nonneg) auto
  then show ?thesis using assms(2) by (simp add: distribute_nth)
qed

text \<open>
  Adding a quantity that is not negative to a running total never lowers it: the total
  is a double, rounding is monotone, and a double rounds to itself.
\<close>

lemma running_total_step:
  assumes "0 \<le> b"
  shows "foldl (\<lambda>c k. dadd c (f k)) 0 [0..<Suc k]
           \<le> dadd (foldl (\<lambda>c k. dadd c (f k)) 0 [0..<Suc k]) b"
proof -
  let ?t = "foldl (\<lambda>c k. dadd c (f k)) 0 [0..<Suc k]"
  have "?t = dadd (foldl (\<lambda>c k. dadd c (f k)) 0 [0..<k]) (f k)" by simp
  then have "double ?t = ?t" by (simp add: dadd_def double_idem)
  moreover have "double ?t \<le> double (?t + b)" using assms by (intro double_mono) simp
  ultimately show ?thesis by (simp add: dadd_def)
qed

text \<open>
  Claim C4, as the code has it. The running total never decreases from one bucket to the
  next provided no level of the raw map carries a negative quantity. The map type admits
  negative quantities and \<^const>\<open>processEvent\<close> stores any non-zero quantity, so the
  proviso is needed: see the counterexample below.
\<close>

theorem cumulative_total_monotone:
  assumes "\<forall>(p, q) \<in> set raw. 0 \<le> q" and "1 \<le> i" and "i < VISUAL_BUCKETS"
  shows "total (aggregateOrders raw isBid mid ! (i - 1)) \<le> total (aggregateOrders raw isBid mid ! i)"
proof -
  from assms(2) obtain k where k: "i = Suc k" by (cases i) auto
  with assms(3) have "k < VISUAL_BUCKETS" by simp
  then show ?thesis
    using distribute_nonneg [OF assms(1,3), of mid] assms(3) k
      running_total_step [of "distribute raw mid (replicate VISUAL_BUCKETS 0) ! Suc k"
        "\<lambda>k. distribute raw mid (replicate VISUAL_BUCKETS 0) ! k" k]
    by (simp add: aggregateOrders_nth)
qed

theorem cumulative_total_monotone_witness:
  "total (aggregateOrders [(99, 1), (97, 2)] True 100 ! 0)
     \<le> total (aggregateOrders [(99, 1), (97, 2)] True 100 ! 1)"
  using cumulative_total_monotone [of "[(99, 1), (97, 2)]" 1 True 100]
  by (simp add: VISUAL_BUCKETS_def)

text \<open>
  Claim C4 as stated, for any raw map, fails: with the levels 100 \<mapsto> 5 and 103 \<mapsto> -1 and
  anchor 100, bucket 0 has total 5 and bucket 1 has total 4.
\<close>

theorem cumulative_total_counterexample:
  "\<not> total (aggregateOrders [(100, 5), (103, - 1)] True 100 ! 0)
       \<le> total (aggregateOrders [(100, 5), (103, - 1)] True 100 ! 1)"
proof -
  have i0: "bucketIndex 100 100 = 0" by code_simp
  have i1: "bucketIndex 103 100 = 1" by code_simp
  show ?thesis
    by (simp add: aggregateOrders_nth distribute_nth VISUAL_BUCKETS_def i0 i1 dadd_def
        double_numeral double_minus double_one double_zero)
qed

lemma bucketIndex_nonneg: "0 \<le> bucketIndex p mid"
  by (simp add: bucketIndex_def ddiv_def AGGREGATION_BUCKET_SIZE_def double_nonneg)

lemma aggregateOrders_in_range_only:
  "aggregateOrders (filter (\<lambda>(p, q). 0 \<le> bucketIndex p mid \<and> bucketIndex p mid < int VISUAL_BUCKETS) raw) isBid mid
     = aggregateOrders raw isBid mid"
proof -
  let ?keep = "\<lambda>(p, q). 0 \<le> bucketIndex p mid \<and> bucketIndex p mid < int VISUAL_BUCKETS"
  have vol: "distribute (filter ?keep xs) mid bv = distribute xs mid bv" for xs bv
  proof (induction xs arbitrary: bv)
    case Nil
    show ?case by simp
  next
    case (Cons x xs)
    obtain p q where x: "x = (p, q)" by (cases x)
    show ?case unfolding x
      by (cases "0 \<le> bucketIndex p mid \<and> bucketIndex p mid < int VISUAL_BUCKETS")
        (auto simp: Cons.IH Let_def)
  qed
  show ?thesis by (simp add: aggregateOrders_def vol)
qed

text \<open>
  Claim C5, as the code has it. The aggregator returns exactly
  \<^const>\<open>VISUAL_BUCKETS\<close> entries. The entry at index \<open>i\<close> has as price the double
  nearest to the anchor minus \<open>i\<close> bucket widths on the bid side, plus \<open>i\<close> bucket widths
  on the ask side: it differs from that value by at most half the spacing of the doubles
  there, and from one index to the next it moves away from the anchor or stays. Its
  quantity is the sum, by double addition in the map's iteration order, of the quantities
  of the raw levels whose index \<^const>\<open>bucketIndex\<close> (the floor of the halved rounded
  difference) is \<open>i\<close>; that index is the exact floor of the distance over the bucket
  width for a level whose difference from the anchor, and its half, are doubles. The
  levels whose index is outside the range leave no trace: the output is that of the raw
  map without them.
\<close>

theorem aggregateOrders_buckets:
  assumes "i \<le> j" and "j < VISUAL_BUCKETS"
  shows "length (aggregateOrders raw isBid mid) = VISUAL_BUCKETS
     \<and> price (aggregateOrders raw isBid mid ! i) =
         (if isBid then double (mid - of_nat i * AGGREGATION_BUCKET_SIZE)
          else double (mid + of_nat i * AGGREGATION_BUCKET_SIZE))
     \<and> \<bar>price (aggregateOrders raw isBid mid ! i)
          - (if isBid then mid - of_nat i * AGGREGATION_BUCKET_SIZE
             else mid + of_nat i * AGGREGATION_BUCKET_SIZE)\<bar>
         \<le> ulp (if isBid then mid - of_nat i * AGGREGATION_BUCKET_SIZE
                 else mid + of_nat i * AGGREGATION_BUCKET_SIZE) / 2
     \<and> (if isBid
         then price (aggregateOrders raw isBid mid ! j) \<le> price (aggregateOrders raw isBid mid ! i)
         else price (aggregateOrders raw isBid mid ! i) \<le> price (aggregateOrders raw isBid mid ! j))
     \<and> quantity (aggregateOrders raw isBid mid ! i) =
         foldl dadd 0 (map snd (filter (\<lambda>(p, q). bucketIndex p mid = int i) raw))
     \<and> (double (p - mid) = p - mid
          \<and> double (\<bar>p - mid\<bar> / AGGREGATION_BUCKET_SIZE) = \<bar>p - mid\<bar> / AGGREGATION_BUCKET_SIZE
         \<longrightarrow> bucketIndex p mid = \<lfloor>\<bar>p - mid\<bar> / AGGREGATION_BUCKET_SIZE\<rfloor>)
     \<and> aggregateOrders raw isBid mid =
         aggregateOrders
           (filter (\<lambda>(p, q). 0 \<le> bucketIndex p mid \<and> bucketIndex p mid < int VISUAL_BUCKETS) raw)
           isBid mid"
proof -
  have i: "i < VISUAL_BUCKETS" using assms by simp
  have exact: "bucketIndex p mid = \<lfloor>\<bar>p - mid\<bar> / 2\<rfloor>"
    if "double (p - mid) = p - mid" and "double (\<bar>p - mid\<bar> / 2) = \<bar>p - mid\<bar> / 2"
  proof -
    have "bucketIndex p mid = \<lfloor>double (\<bar>double (p - mid)\<bar> / 2)\<rfloor>"
      by (simp add: bucketIndex_def ddiv_def dsub_def AGGREGATION_BUCKET_SIZE_def)
    also have "\<dots> = \<lfloor>double (\<bar>p - mid\<bar> / 2)\<rfloor>" by (simp only: that(1))
    also have "\<dots> = \<lfloor>\<bar>p - mid\<bar> / 2\<rfloor>" by (simp only: that(2))
    finally show ?thesis .
  qed
  have down: "double (mid - of_nat j * 2) \<le> double (mid - of_nat i * 2)"
    using assms(1) by (intro double_mono) simp
  have up: "double (mid + of_nat i * 2) \<le> double (mid + of_nat j * 2)"
    using assms(1) by (intro double_mono) simp
  show ?thesis
    using i assms(2) down up double_err [of "mid - of_nat i * 2"] double_err [of "mid + of_nat i * 2"]
      exact
    by (simp add: aggregateOrders_length aggregateOrders_nth aggregateOrders_in_range_only
        AGGREGATION_BUCKET_SIZE_def)
qed

theorem aggregateOrders_buckets_witness:
  "length (aggregateOrders [(99, 1), (97, 2), (300, 7)] True 100) = 60
     \<and> price (aggregateOrders [(99, 1), (97, 2), (300, 7)] True 100 ! 1) = 98
     \<and> price (aggregateOrders [(99, 1), (97, 2), (300, 7)] True 100 ! 2) \<le> 98
     \<and> quantity (aggregateOrders [(99, 1), (97, 2), (300, 7)] True 100 ! 1) = 2
     \<and> aggregateOrders [(99, 1), (97, 2), (300, 7)] True 100 = aggregateOrders [(99, 1), (97, 2)] True 100"
proof -
  have i0: "bucketIndex 99 100 = 0" by code_simp
  have i1: "bucketIndex 97 100 = 1" by code_simp
  have i2: "bucketIndex 300 100 = 100" by code_simp
  show ?thesis
    using aggregateOrders_buckets [of 1 2 "[(99, 1), (97, 2), (300, 7)]" True 100 97]
    by (auto simp: VISUAL_BUCKETS_def AGGREGATION_BUCKET_SIZE_def i0 i1 i2 dadd_def
        double_numeral)
qed

text \<open>
  Claim C5 as stated, read in exact arithmetic, fails on both counts. The level at the
  double of 2.1 with the anchor at the double of 100.1 is at an exact distance below 98,
  index 48, but the subtraction rounds to 98 and the quantity goes to bucket 49. And with
  the anchor at the double of 0.3, the price of ask bucket 1 is the double of 2.3, which
  is not 2 away from the anchor, whether the distance is taken exactly or by the
  language's subtraction.
\<close>

theorem aggregateOrders_buckets_counterexample:
  "\<lfloor>\<bar>double (21 / 10) - double (1001 / 10)\<bar> / AGGREGATION_BUCKET_SIZE\<rfloor> = 48
   \<and> quantity (aggregateOrders [(double (21 / 10), 1)] True (double (1001 / 10)) ! 48) = 0
   \<and> quantity (aggregateOrders [(double (21 / 10), 1)] True (double (1001 / 10)) ! 49) = 1
   \<and> \<bar>price (aggregateOrders [] False (double (3 / 10)) ! 1) - double (3 / 10)\<bar>
       \<noteq> AGGREGATION_BUCKET_SIZE
   \<and> \<bar>dsub (price (aggregateOrders [] False (double (3 / 10)) ! 1)) (double (3 / 10))\<bar>
       \<noteq> AGGREGATION_BUCKET_SIZE"
proof -
  have exact: "\<lfloor>\<bar>double (21 / 10) - double (1001 / 10)\<bar> / AGGREGATION_BUCKET_SIZE\<rfloor> = 48"
    by code_simp
  have idx: "bucketIndex (double (21 / 10)) (double (1001 / 10)) = 49"
    by code_simp
  have far: "\<bar>double (double (3 / 10) + 2) - double (3 / 10)\<bar> \<noteq> 2"
    by code_simp
  have far': "\<bar>dsub (double (double (3 / 10) + 2)) (double (3 / 10))\<bar> \<noteq> 2"
    by code_simp
  show ?thesis
    using exact far far'
    by (simp add: aggregateOrders_nth VISUAL_BUCKETS_def idx dadd_def double_one
        AGGREGATION_BUCKET_SIZE_def)
qed

text \<open>Below \<open>2 ^ 53\<close> the doubles are at most 1 apart, so rounding moves by at most a half.\<close>

lemma double_err_small:
  assumes "\<bar>x\<bar> < 2 ^ 53"
  shows "\<bar>double x - x\<bar> \<le> 1 / 2"
proof (cases "x = 0")
  case True
  then show ?thesis by (simp add: double_zero)
next
  case False
  then have pos: "0 < \<bar>x\<bar>" by simp
  have "ilog2 \<bar>x\<bar> \<le> 52"
  proof (rule ccontr)
    assume "\<not> ilog2 \<bar>x\<bar> \<le> 52"
    then have "53 \<le> ilog2 \<bar>x\<bar>" by simp
    then have "(2::rat) powi 53 \<le> 2 powi (ilog2 \<bar>x\<bar>)" by (intro power_int_increasing) simp_all
    with ilog2_bounds [OF pos] assms show False by simp
  qed
  then have "exponent x - 52 \<le> 0" by (simp add: exponent_def)
  then have "(2::rat) powi (exponent x - 52) \<le> 2 powi 0" by (intro power_int_increasing) simp_all
  then have "ulp x \<le> 1" by (simp add: ulp_def)
  with double_err [of x] show ?thesis by simp
qed

text \<open>
  Claim C10, as the code has it. The side of the anchor a level lies on is never looked
  at. A bid-side level strictly above the anchor (an ask-side level strictly below it)
  whose index \<^const>\<open>bucketIndex\<close> is in range has its quantity added, by double
  addition at its turn in the iteration, to the bucket at that index: the bucket holds
  what the levels before it had put there, plus \<open>q\<close>, plus what the levels after it add.
  The bucket's reported price is the double nearest to the anchor moved by that many
  bucket widths to the other side; it is never on the level's own side of the anchor
  (the anchor being a double), and from index 1 on, for anchors up to \<open>2 ^ 52\<close> in
  magnitude, it is strictly on the opposite side.
\<close>

theorem wrong_side_level_counted:
  assumes "if isBid then mid < p else p < mid"
    and "bucketIndex p mid < int VISUAL_BUCKETS"
    and "double mid = mid"
  shows "quantity (aggregateOrders (xs @ (p, q) # ys) isBid mid ! nat (bucketIndex p mid))
           = foldl dadd
               (dadd (quantity (aggregateOrders xs isBid mid ! nat (bucketIndex p mid))) q)
               (map snd (filter (\<lambda>(p', q'). bucketIndex p' mid = bucketIndex p mid) ys))
     \<and> price (aggregateOrders (xs @ (p, q) # ys) isBid mid ! nat (bucketIndex p mid))
           = (if isBid then double (mid - of_int (bucketIndex p mid) * AGGREGATION_BUCKET_SIZE)
              else double (mid + of_int (bucketIndex p mid) * AGGREGATION_BUCKET_SIZE))
     \<and> (if isBid
         then price (aggregateOrders (xs @ (p, q) # ys) isBid mid ! nat (bucketIndex p mid)) \<le> mid
         else mid \<le> price (aggregateOrders (xs @ (p, q) # ys) isBid mid ! nat (bucketIndex p mid)))
     \<and> (1 \<le> bucketIndex p mid \<and> \<bar>mid\<bar> \<le> 2 ^ 52 \<longrightarrow>
         (if isBid
          then price (aggregateOrders (xs @ (p, q) # ys) isBid mid ! nat (bucketIndex p mid)) < mid
          else mid < price (aggregateOrders (xs @ (p, q) # ys) isBid mid ! nat (bucketIndex p mid))))"
proof -
  define n where "n = nat (bucketIndex p mid)"
  have n: "n < VISUAL_BUCKETS"
    using assms(2) bucketIndex_nonneg [of p mid] by (simp add: n_def nat_less_iff)
  have eq: "int n = bucketIndex p mid"
    using bucketIndex_nonneg [of p mid] by (simp add: n_def)
  have real: "(of_nat n :: rat) = of_int (bucketIndex p mid)"
    using eq by (metis of_int_of_nat_eq)
  have below: "double (mid - of_nat n * 2) \<le> mid"
  proof -
    have "double (mid - of_nat n * 2) \<le> double mid" by (intro double_mono) simp
    then show ?thesis by (simp add: assms(3))
  qed
  have above: "mid \<le> double (mid + of_nat n * 2)"
  proof -
    have "double mid \<le> double (mid + of_nat n * 2)" by (intro double_mono) simp
    then show ?thesis by (simp add: assms(3))
  qed
  have strict: "double (mid - of_nat n * 2) < mid \<and> mid < double (mid + of_nat n * 2)"
    if "1 \<le> bucketIndex p mid" and "\<bar>mid\<bar> \<le> 2 ^ 52"
  proof -
    have n1: "(1::rat) \<le> of_nat n" using that(1) eq by simp
    have n60: "(of_nat n :: rat) < 60" using n by (simp add: VISUAL_BUCKETS_def)
    have "\<bar>mid - of_nat n * 2\<bar> < 2 ^ 53" "\<bar>mid + of_nat n * 2\<bar> < 2 ^ 53"
      using that(2) n1 n60 by (simp_all add: abs_if split: if_splits)
    then have "\<bar>double (mid - of_nat n * 2) - (mid - of_nat n * 2)\<bar> \<le> 1 / 2"
      "\<bar>double (mid + of_nat n * 2) - (mid + of_nat n * 2)\<bar> \<le> 1 / 2"
      by (simp_all only: double_err_small)
    with n1 show ?thesis by (simp add: abs_if split: if_splits)
  qed
  have vol: "quantity (aggregateOrders (xs @ (p, q) # ys) isBid mid ! n)
      = foldl dadd (dadd (quantity (aggregateOrders xs isBid mid ! n)) q)
          (map snd (filter (\<lambda>(p', q'). bucketIndex p' mid = bucketIndex p mid) ys))"
    using n by (simp add: aggregateOrders_nth eq)
  have pr: "price (aggregateOrders (xs @ (p, q) # ys) isBid mid ! n)
      = (if isBid then double (mid - of_nat n * 2) else double (mid + of_nat n * 2))"
    using n by (simp add: aggregateOrders_nth)
  show ?thesis
    unfolding n_def [symmetric] real [symmetric] AGGREGATION_BUCKET_SIZE_def
    using vol pr below above strict eq by (auto simp: real)
qed

theorem wrong_side_level_counted_witness:
  "quantity (aggregateOrders ([(99, 1)] @ (103, 4) # [(97, 2)]) True 100 ! 1) = 6
   \<and> price (aggregateOrders ([(99, 1)] @ (103, 4) # [(97, 2)]) True 100 ! 1) = 98
   \<and> quantity (aggregateOrders ([(101, 1)] @ (97, 4) # []) False 100 ! 1) = 4
   \<and> price (aggregateOrders ([(101, 1)] @ (97, 4) # []) False 100 ! 1) = 102"
proof -
  have i1: "bucketIndex 103 100 = 1" by code_simp
  have i2: "bucketIndex 97 100 = 1" by code_simp
  have i3: "bucketIndex 99 100 = 0" by code_simp
  have i4: "bucketIndex 101 100 = 0" by code_simp
  show ?thesis
    using wrong_side_level_counted [of True 100 103 "[(99, 1)]" 4 "[(97, 2)]"]
      wrong_side_level_counted [of False 100 97 "[(101, 1)]" 4 "[]"]
    by (simp add: VISUAL_BUCKETS_def AGGREGATION_BUCKET_SIZE_def i1 i2 i3 i4 dadd_def
        double_numeral double_zero aggregateOrders_nth)
qed

text \<open>
  Claim C10 as stated fails at index 0 and in exact arithmetic. The bid-side level 101
  above the anchor 100 is counted in bucket 0, whose reported price is the anchor itself,
  not a price on the other side. And the bid-side level at the double of 100.1 above the
  anchor at the double of 2.1 is at an exact distance below 98, index 48, yet its
  quantity is added to bucket 49.
\<close>

theorem wrong_side_level_counterexample:
  "bucketIndex 101 100 = 0
   \<and> quantity (aggregateOrders [(101, 1)] True 100 ! 0) = 1
   \<and> price (aggregateOrders [(101, 1)] True 100 ! 0) = 100
   \<and> \<lfloor>\<bar>double (1001 / 10) - double (21 / 10)\<bar> / AGGREGATION_BUCKET_SIZE\<rfloor> = 48
   \<and> quantity (aggregateOrders [(double (1001 / 10), 1)] True (double (21 / 10)) ! 48) = 0
   \<and> quantity (aggregateOrders [(double (1001 / 10), 1)] True (double (21 / 10)) ! 49) = 1"
proof -
  have i0: "bucketIndex 101 100 = 0" by code_simp
  have exact: "\<lfloor>\<bar>double (1001 / 10) - double (21 / 10)\<bar> / AGGREGATION_BUCKET_SIZE\<rfloor> = 48"
    by code_simp
  have idx: "bucketIndex (double (1001 / 10)) (double (21 / 10)) = 49"
    by code_simp
  show ?thesis
    using exact
    by (simp add: aggregateOrders_nth VISUAL_BUCKETS_def i0 idx dadd_def double_one
        double_numeral)
qed

section \<open>Properties of the store\<close>

text \<open>
  What a pass over a change list leaves at a key: the last change for that key decides,
  and a key no change mentions keeps what it had.
\<close>

lemma applyChanges_lookup:
  "map_of (applyChanges cs m) k =
     (case map_of (rev cs) k of None \<Rightarrow> map_of m k
      | Some q \<Rightarrow> if q = 0 then None else Some q)"
proof (induction cs arbitrary: m)
  case Nil
  show ?case by simp
next
  case (Cons c cs)
  obtain p q where c: "c = (p, q)" by (cases c)
  show ?case
    by (simp add: c Cons.IH map_add_def AList.update_conv' AList.delete_conv'
        split: option.splits)
qed

lemma applyChanges_twice:
  "map_of (applyChanges cs (applyChanges cs m)) = map_of (applyChanges cs m)"
  by (rule ext) (simp add: applyChanges_lookup split: option.splits)

lemma applyChanges_zero_last:
  assumes "p \<notin> fst ` set ys"
  shows "p \<notin> fst ` set (applyChanges (xs @ (p, 0) # ys) m)"
proof -
  have "map_of (rev ys) p = None"
    using assms by (simp add: map_of_eq_None_iff)
  then have "map_of (rev (xs @ (p, 0) # ys)) p = Some 0"
    by (simp add: map_add_def)
  then have "map_of (applyChanges (xs @ (p, 0) # ys) m) p = None"
    by (simp add: applyChanges_lookup)
  then show ?thesis by (simp add: map_of_eq_None_iff)
qed

text \<open>
  Claim C7. A change with quantity 0 removes its price key: when the last change an event
  makes to a price has quantity 0, the key is absent from that side afterwards (in
  particular for an event whose only change to the price is the zero). Applying the same
  event a second time leaves both sides with the same entries, key by key, as applying it
  once. (The spec's store is unordered; a \<^verbatim>\<open>Map\<close> also remembers insertion order, which
  a second application of an event that deletes and re-inserts a price can permute.)
\<close>

theorem zero_quantity_removes_and_replay_is_noop:
  "(ev_b e = Some (xs @ (p, 0) # ys) \<and> p \<notin> fst ` set ys
      \<longrightarrow> p \<notin> fst ` set (bidMap (processEvent e s)))
   \<and> (ev_a e = Some (xs' @ (p', 0) # ys') \<and> p' \<notin> fst ` set ys'
      \<longrightarrow> p' \<notin> fst ` set (askMap (processEvent e s)))
   \<and> map_of (bidMap (processEvent e (processEvent e s))) = map_of (bidMap (processEvent e s))
   \<and> map_of (askMap (processEvent e (processEvent e s))) = map_of (askMap (processEvent e s))"
  by (auto simp: processEvent_def applyChanges_twice
      dest: applyChanges_zero_last split: option.splits)

theorem zero_quantity_removes_and_replay_is_noop_witness:
  "99 \<notin> fst ` set (bidMap (processEvent
        \<lparr>ev_U = 101, ev_u = 102, ev_b = Some ([(98, 5)] @ (99, 0) # [(97, 1)]),
         ev_a = Some ([] @ (101, 0) # [(102, 3)])\<rparr>
        (initial\<lparr>bidMap := [(99, 1), (98, 2)], askMap := [(101, 1)]\<rparr>)))
   \<and> 101 \<notin> fst ` set (askMap (processEvent
        \<lparr>ev_U = 101, ev_u = 102, ev_b = Some ([(98, 5)] @ (99, 0) # [(97, 1)]),
         ev_a = Some ([] @ (101, 0) # [(102, 3)])\<rparr>
        (initial\<lparr>bidMap := [(99, 1), (98, 2)], askMap := [(101, 1)]\<rparr>)))"
  using zero_quantity_removes_and_replay_is_noop
    [of "\<lparr>ev_U = 101, ev_u = 102, ev_b = Some ([(98, 5)] @ (99, 0) # [(97, 1)]),
         ev_a = Some ([] @ (101, 0) # [(102, 3)])\<rparr>"
        "[(98, 5)]" 99 "[(97, 1)]"
        "initial\<lparr>bidMap := [(99, 1), (98, 2)], askMap := [(101, 1)]\<rparr>"
        "[]" 101 "[(102, 3)]"]
  by simp

text \<open>Positive quantities are kept by every step that stores none but positive ones.\<close>

lemma update_keeps:
  "list_all P m \<Longrightarrow> P (k, v) \<Longrightarrow> list_all P (AList.update k v m)"
  by (induction m) auto

lemma delete_keeps:
  "list_all P m \<Longrightarrow> list_all P (AList.delete k m)"
  by (induction m) auto

lemma applyChanges_positive:
  "positiveLevels m \<Longrightarrow> list_all (\<lambda>(p, q). 0 \<le> q) cs \<Longrightarrow> positiveLevels (applyChanges cs m)"
proof (induction cs arbitrary: m)
  case Nil
  then show ?case by simp
next
  case (Cons c cs)
  obtain p q where c: "c = (p, q)" by (cases c)
  from Cons.prems have q: "0 \<le> q" and rest: "list_all (\<lambda>(p, q). 0 \<le> q) cs"
    by (simp_all add: c)
  show ?case
  proof (cases "q = 0")
    case True
    with Cons.IH [OF _ rest] Cons.prems(1) show ?thesis
      by (simp add: c positiveLevels_def delete_keeps)
  next
    case False
    with q have "0 < q" by simp
    with Cons.IH [OF _ rest] Cons.prems(1) False show ?thesis
      by (simp add: c positiveLevels_def update_keeps)
  qed
qed

lemma loadLevels_positive:
  "positiveLevels m \<Longrightarrow> positiveLevels ls \<Longrightarrow> positiveLevels (loadLevels ls m)"
proof (induction ls arbitrary: m)
  case Nil
  then show ?case by simp
next
  case (Cons c cs)
  obtain p q where c: "c = (p, q)" by (cases c)
  from Cons.prems(2) have "0 < q" "positiveLevels cs" by (simp_all add: c positiveLevels_def)
  with Cons.IH [of "AList.update p q m"] Cons.prems(1) show ?case
    by (simp add: c positiveLevels_def update_keeps)
qed

lemma processEvent_positive:
  "positiveBook s \<Longrightarrow> nonnegEvent e \<Longrightarrow> positiveBook (processEvent e s)"
  by (auto simp: positiveBook_def nonnegEvent_def nonnegChanges_def processEvent_def
      applyChanges_positive split: option.splits)

lemma fold_processEvent_positive:
  "positiveBook s \<Longrightarrow> list_all nonnegEvent es \<Longrightarrow> positiveBook (fold processEvent es s)"
  by (induction es arbitrary: s) (simp_all add: processEvent_positive)

lemma fetchSnapshot_positive:
  assumes "positiveBook s" and "positiveLevels (base_bids d)" and "positiveLevels (base_asks d)"
    and "list_all nonnegEvent (eventBuffer s)"
  shows "positiveBook (fetchSnapshot (Some d) s)"
proof -
  let ?s4 = "s\<lparr>lastUpdateId := base_lastUpdateId d,
               bidMap := loadLevels (base_bids d) (bidMap s),
               askMap := loadLevels (base_asks d) (askMap s),
               hasSnapshot := True\<rparr>"
  have "positiveBook ?s4"
    using assms(1-3) by (simp add: positiveBook_def loadLevels_positive)
  moreover have "list_all nonnegEvent (filter (\<lambda>e. base_lastUpdateId d < ev_u e) (eventBuffer s))"
    using assms(4) by (simp add: list_all_iff)
  ultimately have "positiveBook (fold processEvent (filter (\<lambda>e. base_lastUpdateId d < ev_u e) (eventBuffer s)) ?s4)"
    by (rule fold_processEvent_positive)
  then show ?thesis
    by (simp add: fetchSnapshot_def Let_def positiveBook_def)
qed

lemma onmessage_positive:
  "positiveBook s \<Longrightarrow> nonnegMessage m \<Longrightarrow> positiveBook (onmessage m s)"
proof (cases m)
  case (DepthUpdate e)
  assume "positiveBook s" "nonnegMessage m"
  then have "positiveBook (processEvent e s)"
    by (simp add: DepthUpdate processEvent_positive)
  then show ?thesis
    using \<open>positiveBook s\<close> by (simp add: DepthUpdate Let_def positiveBook_def)
qed simp_all

lemma fold_onmessage_positive:
  "positiveBook s \<Longrightarrow> list_all nonnegMessage ms \<Longrightarrow> positiveBook (fold onmessage ms s)"
  by (induction ms arbitrary: s) (simp_all add: onmessage_positive)

text \<open>
  Claim C2, as the code has it. Start from a store with positive quantities (the empty
  store of a new session is one), a baseline whose listed quantities are all positive,
  and buffered and later events whose change quantities are never negative. Then after
  baseline initialization and after every message handled since, every entry of either
  side map has a quantity strictly greater than 0; a quantity 0 in a change list is never
  stored, it deletes the key.
\<close>

theorem stored_quantities_positive:
  assumes "positiveLevels (bidMap s)" and "positiveLevels (askMap s)"
    and "positiveLevels (base_bids d)" and "positiveLevels (base_asks d)"
    and "list_all nonnegEvent (eventBuffer s)"
    and "list_all nonnegMessage ms"
  shows "positiveLevels (bidMap (fold onmessage ms (fetchSnapshot (Some d) s)))
     \<and> positiveLevels (askMap (fold onmessage ms (fetchSnapshot (Some d) s)))"
proof -
  have "positiveBook (fetchSnapshot (Some d) s)"
    using assms(1-5) by (intro fetchSnapshot_positive) (simp_all add: positiveBook_def)
  then have "positiveBook (fold onmessage ms (fetchSnapshot (Some d) s))"
    using assms(6) by (rule fold_onmessage_positive)
  then show ?thesis by (simp add: positiveBook_def)
qed

theorem stored_quantities_positive_witness:
  "positiveLevels (bidMap (fold onmessage
       [DepthUpdate \<lparr>ev_U = 103, ev_u = 104, ev_b = Some [(99, 0), (98, 3)], ev_a = None\<rparr>]
       (fetchSnapshot
          (Some \<lparr>base_lastUpdateId = 100, base_bids = [(99, 1)], base_asks = [(101, 1)]\<rparr>)
          (initial\<lparr>eventBuffer :=
             [\<lparr>ev_U = 95, ev_u = 102, ev_b = Some [(97, 2)], ev_a = Some [(101, 0)]\<rparr>]\<rparr>))))
   \<and> positiveLevels (askMap (fold onmessage
       [DepthUpdate \<lparr>ev_U = 103, ev_u = 104, ev_b = Some [(99, 0), (98, 3)], ev_a = None\<rparr>]
       (fetchSnapshot
          (Some \<lparr>base_lastUpdateId = 100, base_bids = [(99, 1)], base_asks = [(101, 1)]\<rparr>)
          (initial\<lparr>eventBuffer :=
             [\<lparr>ev_U = 95, ev_u = 102, ev_b = Some [(97, 2)], ev_a = Some [(101, 0)]\<rparr>]\<rparr>))))"
  using stored_quantities_positive
    [of "initial\<lparr>eventBuffer :=
             [\<lparr>ev_U = 95, ev_u = 102, ev_b = Some [(97, 2)], ev_a = Some [(101, 0)]\<rparr>]\<rparr>"
        "\<lparr>base_lastUpdateId = 100, base_bids = [(99, 1)], base_asks = [(101, 1)]\<rparr>"
        "[DepthUpdate \<lparr>ev_U = 103, ev_u = 104, ev_b = Some [(99, 0), (98, 3)], ev_a = None\<rparr>]"]
  by (simp add: initial_def positiveLevels_def nonnegEvent_def nonnegChanges_def)

text \<open>
  Claim C2 as stated fails twice over. \<^const>\<open>fetchSnapshot\<close> stores a baseline level
  as it comes, so a listed quantity 0 becomes an entry; and \<^const>\<open>processEvent\<close> stores
  every quantity other than 0, a negative one included.
\<close>

theorem stored_quantities_counterexample:
  "bidMap (fetchSnapshot
      (Some \<lparr>base_lastUpdateId = 100, base_bids = [(99, 0)], base_asks = [(101, 1)]\<rparr>)
      initial) = [(99, 0)]
   \<and> bidMap (onmessage
      (DepthUpdate \<lparr>ev_U = 101, ev_u = 101, ev_b = Some [(98, - 1)], ev_a = None\<rparr>)
      (fetchSnapshot
        (Some \<lparr>base_lastUpdateId = 100, base_bids = [(99, 1)], base_asks = [(101, 1)]\<rparr>)
        initial)) = [(99, 1), (98, - 1)]"
  by (simp add: fetchSnapshot_def initial_def processEvent_def)

section \<open>Properties of the synchronization\<close>

text \<open>
  \<^const>\<open>processEvent\<close> touches the two side maps and nothing else, so the replay of the
  buffer can be read off one field at a time.
\<close>

lemma processEvent_eventBuffer:
  "processEvent e (s\<lparr>eventBuffer := b\<rparr>) = (processEvent e s)\<lparr>eventBuffer := b\<rparr>"
  by (simp add: processEvent_def split: option.splits)

lemma fold_processEvent_eventBuffer:
  "fold processEvent es (s\<lparr>eventBuffer := b\<rparr>) = (fold processEvent es s)\<lparr>eventBuffer := b\<rparr>"
  by (induction es arbitrary: s) (simp_all add: processEvent_eventBuffer)

lemma processEvent_other_fields:
  "lastUpdateId (processEvent e s) = lastUpdateId s
   \<and> hasSnapshot (processEvent e s) = hasSnapshot s
   \<and> eventBuffer (processEvent e s) = eventBuffer s
   \<and> processing (processEvent e s) = processing s
   \<and> rafQueue (processEvent e s) = rafQueue s
   \<and> delivered (processEvent e s) = delivered s"
  by (simp add: processEvent_def split: option.splits)

lemma fold_processEvent_other_fields:
  "lastUpdateId (fold processEvent es s) = lastUpdateId s
   \<and> hasSnapshot (fold processEvent es s) = hasSnapshot s
   \<and> eventBuffer (fold processEvent es s) = eventBuffer s
   \<and> processing (fold processEvent es s) = processing s
   \<and> rafQueue (fold processEvent es s) = rafQueue s
   \<and> delivered (fold processEvent es s) = delivered s"
  by (induction es arbitrary: s) (simp_all add: processEvent_other_fields)

lemma fetchSnapshot_unfold:
  "fetchSnapshot (Some d) s =
     fold processEvent (filter (\<lambda>e. base_lastUpdateId d < ev_u e) (eventBuffer s))
       (s\<lparr>lastUpdateId := base_lastUpdateId d,
          bidMap := loadLevels (base_bids d) (bidMap s),
          askMap := loadLevels (base_asks d) (askMap s),
          hasSnapshot := True,
          eventBuffer := []\<rparr>)"
  by (simp add: fetchSnapshot_def Let_def fold_processEvent_eventBuffer)

text \<open>
  Claim C3, as the code has it. When the baseline arrives, the buffered events with
  \<open>u\<close> at most the baseline's \<open>lastUpdateId\<close> are discarded (the outcome is that of a
  buffer without them), and the others are applied in arrival order: the event that
  arrived last is applied on top of the outcome for the events before it. The variable
  \<open>lastUpdateId\<close> holds the baseline's value afterwards; no apply moves it.
\<close>

theorem baseline_replay:
  "fetchSnapshot (Some d)
       (s\<lparr>eventBuffer := filter (\<lambda>e. \<not> ev_u e \<le> base_lastUpdateId d) (eventBuffer s)\<rparr>)
     = fetchSnapshot (Some d) s
   \<and> fetchSnapshot (Some d) (s\<lparr>eventBuffer := es @ [e]\<rparr>)
     = (if ev_u e \<le> base_lastUpdateId d then fetchSnapshot (Some d) (s\<lparr>eventBuffer := es\<rparr>)
        else processEvent e (fetchSnapshot (Some d) (s\<lparr>eventBuffer := es\<rparr>)))
   \<and> lastUpdateId (fetchSnapshot (Some d) s) = base_lastUpdateId d
   \<and> hasSnapshot (fetchSnapshot (Some d) s)
   \<and> eventBuffer (fetchSnapshot (Some d) s) = []"
proof -
  have same: "(\<lambda>e. \<not> ev_u e \<le> base_lastUpdateId d) = (\<lambda>e. base_lastUpdateId d < ev_u e)"
    by (simp add: fun_eq_iff not_le)
  show ?thesis
    by (simp add: fetchSnapshot_unfold fold_processEvent_other_fields same)
qed

theorem baseline_replay_witness:
  "bidMap (fetchSnapshot
      (Some \<lparr>base_lastUpdateId = 100, base_bids = [(99, 1)], base_asks = [(101, 1)]\<rparr>)
      (initial\<lparr>eventBuffer :=
         [\<lparr>ev_U = 90, ev_u = 100, ev_b = Some [(99, 0)], ev_a = None\<rparr>]
         @ [\<lparr>ev_U = 95, ev_u = 102, ev_b = Some [(98, 5)], ev_a = None\<rparr>]\<rparr>))
     = [(99, 1), (98, 5)]
   \<and> lastUpdateId (fetchSnapshot
      (Some \<lparr>base_lastUpdateId = 100, base_bids = [(99, 1)], base_asks = [(101, 1)]\<rparr>)
      (initial\<lparr>eventBuffer :=
         [\<lparr>ev_U = 90, ev_u = 100, ev_b = Some [(99, 0)], ev_a = None\<rparr>]
         @ [\<lparr>ev_U = 95, ev_u = 102, ev_b = Some [(98, 5)], ev_a = None\<rparr>]\<rparr>))
     = 100"
  using baseline_replay
    [of "\<lparr>base_lastUpdateId = 100, base_bids = [(99, 1)], base_asks = [(101, 1)]\<rparr>"
        "initial\<lparr>eventBuffer :=
         [\<lparr>ev_U = 90, ev_u = 100, ev_b = Some [(99, 0)], ev_a = None\<rparr>]
         @ [\<lparr>ev_U = 95, ev_u = 102, ev_b = Some [(98, 5)], ev_a = None\<rparr>]\<rparr>"
        "[\<lparr>ev_U = 90, ev_u = 100, ev_b = Some [(99, 0)], ev_a = None\<rparr>]"
        "\<lparr>ev_U = 95, ev_u = 102, ev_b = Some [(98, 5)], ev_a = None\<rparr>"]
  by (simp add: fetchSnapshot_def initial_def processEvent_def)

text \<open>
  Claim C3 as stated has \<open>lastUpdateId\<close> advance to 102 once the event with \<open>U = 95\<close>,
  \<open>u = 102\<close> is applied on a baseline of 100. The event is applied; the variable stays
  at 100.
\<close>

theorem lastUpdateId_not_advanced:
  "lastUpdateId (fetchSnapshot
      (Some \<lparr>base_lastUpdateId = 100, base_bids = [(99, 1)], base_asks = [(101, 1)]\<rparr>)
      (initial\<lparr>eventBuffer :=
         [\<lparr>ev_U = 95, ev_u = 102, ev_b = Some [(98, 5)], ev_a = None\<rparr>]\<rparr>))
     \<noteq> 102"
  by (simp add: fetchSnapshot_def initial_def processEvent_def)

text \<open>
  Claim C1 at the spec's own gap scenario. Baseline \<open>lastUpdateId = 100\<close>; the buffer
  holds an event with \<open>u = 100\<close> and then one with \<open>U = 105\<close>, \<open>u = 110\<close>, so the updates
  101 to 104 are missing. \<^const>\<open>fetchSnapshot\<close> drops the first, applies the second (the
  level 98 is in the bid map) and goes live. Likewise a later event with \<open>U = 200\<close> on a
  book at 100 is applied by \<^const>\<open>onmessage\<close>. There is no state for a lost
  synchronization.
\<close>

theorem gapped_events_are_applied:
  "bidMap (fetchSnapshot
      (Some \<lparr>base_lastUpdateId = 100, base_bids = [(99, 1)], base_asks = [(101, 1)]\<rparr>)
      (initial\<lparr>eventBuffer :=
         [\<lparr>ev_U = 90, ev_u = 100, ev_b = Some [(99, 0)], ev_a = None\<rparr>,
          \<lparr>ev_U = 105, ev_u = 110, ev_b = Some [(98, 5)], ev_a = None\<rparr>]\<rparr>))
     = [(99, 1), (98, 5)]
   \<and> hasSnapshot (fetchSnapshot
      (Some \<lparr>base_lastUpdateId = 100, base_bids = [(99, 1)], base_asks = [(101, 1)]\<rparr>)
      (initial\<lparr>eventBuffer :=
         [\<lparr>ev_U = 90, ev_u = 100, ev_b = Some [(99, 0)], ev_a = None\<rparr>,
          \<lparr>ev_U = 105, ev_u = 110, ev_b = Some [(98, 5)], ev_a = None\<rparr>]\<rparr>))
   \<and> bidMap (onmessage
      (DepthUpdate \<lparr>ev_U = 200, ev_u = 210, ev_b = Some [(97, 7)], ev_a = None\<rparr>)
      (fetchSnapshot
        (Some \<lparr>base_lastUpdateId = 100, base_bids = [(99, 1)], base_asks = [(101, 1)]\<rparr>)
        initial))
     = [(99, 1), (97, 7)]
   \<and> hasSnapshot (onmessage
      (DepthUpdate \<lparr>ev_U = 200, ev_u = 210, ev_b = Some [(97, 7)], ev_a = None\<rparr>)
      (fetchSnapshot
        (Some \<lparr>base_lastUpdateId = 100, base_bids = [(99, 1)], base_asks = [(101, 1)]\<rparr>)
        initial))"
  by (simp add: fetchSnapshot_def initial_def processEvent_def)

section \<open>Properties of snapshot assembly\<close>

text \<open>
  The two scans as a maximum and a minimum: the best-bid scan returns the largest of its
  seed and the keys, the best-ask scan the smallest key once there is one.
\<close>

lemma scanBestBid_fold: "scanBestBid ks b = fold max ks b"
  by (induction ks arbitrary: b) (simp_all add: max_def not_less)

lemma scanBestBid_Max: "scanBestBid ks b = Max (insert b (set ks))"
  using Max.set_eq_fold [of b ks] by (simp add: scanBestBid_fold)

lemma scanBestAsk_Finite: "scanBestAsk ks (Finite b) = Finite (fold min ks b)"
  by (induction ks arbitrary: b) (simp_all add: min_def not_less)

lemma scanBestAsk_Min: "ks \<noteq> [] \<Longrightarrow> scanBestAsk ks Infinity = Finite (Min (set ks))"
proof (cases ks)
  case (Cons k rest)
  then show ?thesis
    using Min.set_eq_fold [of k rest] by (simp add: scanBestAsk_Finite)
qed simp

lemma scanBestBid_floor: "\<forall>k \<in> set ks. k \<le> b \<Longrightarrow> scanBestBid ks b = b"
  by (induction ks) auto

lemma frameCallback_silent: "emitUpdate now s = None \<Longrightarrow> delivered (frameCallback now s) = delivered s"
  by (simp add: frameCallback_def)

text \<open>
  Claim C6, as the code has it. With either side map empty, \<^const>\<open>emitUpdate\<close> returns
  without a snapshot and the frame callback hands nothing to the consumer. With both
  sides non-empty and a bid key above 0, a snapshot is produced and handed over, and its
  mid price is the maximum bid key plus the minimum ask key, halved, in double
  arithmetic: the sum is rounded to the nearest double, and so is its half. It is the
  exact mean whenever the sum and its half are doubles. The instance below is the spec's
  example: bids 99 and asks 101 give mid price 100; once the ask at 101 is removed
  nothing is emitted; when an ask at 103 arrives, emission resumes.
\<close>

theorem emitUpdate_mid_price:
  "(bidMap s = [] \<or> askMap s = []
      \<longrightarrow> emitUpdate now s = None \<and> delivered (frameCallback now s) = delivered s)
   \<and> (bidMap s \<noteq> [] \<and> askMap s \<noteq> [] \<and> 0 < Max (fst ` set (bidMap s))
      \<longrightarrow> (\<exists>view. emitUpdate now s = Some view
             \<and> midPrice view
                 = ddiv (dadd (Max (fst ` set (bidMap s))) (Min (fst ` set (askMap s)))) 2
             \<and> delivered (frameCallback now s) = delivered s @ [view]))
   \<and> (emitUpdate now s = Some v
      \<longrightarrow> midPrice v = ddiv (dadd (Max (fst ` set (bidMap s))) (Min (fst ` set (askMap s)))) 2)
   \<and> (emitUpdate now s = Some v
        \<and> double (Max (fst ` set (bidMap s)) + Min (fst ` set (askMap s)))
            = Max (fst ` set (bidMap s)) + Min (fst ` set (askMap s))
        \<and> double ((Max (fst ` set (bidMap s)) + Min (fst ` set (askMap s))) / 2)
            = (Max (fst ` set (bidMap s)) + Min (fst ` set (askMap s))) / 2
      \<longrightarrow> midPrice v = (Max (fst ` set (bidMap s)) + Min (fst ` set (askMap s))) / 2)"
proof -
  let ?B = "fst ` set (bidMap s)" and ?A = "fst ` set (askMap s)"
  have none: "emitUpdate now s = None" if "bidMap s = [] \<or> askMap s = []"
    using that by (auto simp: emitUpdate_def)
  have some: "emitUpdate now s =
      Some \<lparr>timestamp = now, midPrice = ddiv (dadd (Max ?B) (Min ?A)) 2,
            bids = aggregateOrders (bidMap s) True (ddiv (dadd (Max ?B) (Min ?A)) 2),
            asks = aggregateOrders (askMap s) False (ddiv (dadd (Max ?B) (Min ?A)) 2)\<rparr>"
    if "bidMap s \<noteq> []" and "askMap s \<noteq> []" and "0 < Max ?B"
  proof -
    have "scanBestBid (map fst (bidMap s)) 0 = max 0 (Max ?B)"
      using that(1) by (simp add: scanBestBid_Max)
    then have bid: "scanBestBid (map fst (bidMap s)) 0 = Max ?B"
      using that(3) by (simp add: max_def)
    have ask: "scanBestAsk (map fst (askMap s)) Infinity = Finite (Min ?A)"
      using that(2) by (simp add: scanBestAsk_Min)
    show ?thesis
      using that by (simp add: emitUpdate_def Let_def bid ask)
  qed
  have mid: "midPrice v = ddiv (dadd (Max ?B) (Min ?A)) 2" if v: "emitUpdate now s = Some v"
  proof -
    have bne: "bidMap s \<noteq> []" and ane: "askMap s \<noteq> []"
      using v by (auto simp: emitUpdate_def split: if_splits)
    have best0: "scanBestBid (map fst (bidMap s)) 0 \<noteq> 0"
      using v bne ane by (auto simp: emitUpdate_def Let_def split: if_splits)
    have "scanBestBid (map fst (bidMap s)) 0 = max 0 (Max ?B)"
      using bne by (simp add: scanBestBid_Max)
    with best0 have "0 < Max ?B" by (simp add: max_def split: if_splits)
    from some [OF bne ane this] v show ?thesis by auto
  qed
  show ?thesis
  proof (intro conjI impI)
    assume "bidMap s = [] \<or> askMap s = []"
    then show "emitUpdate now s = None" by (rule none)
    then show "delivered (frameCallback now s) = delivered s" by (rule frameCallback_silent)
  next
    assume "bidMap s \<noteq> [] \<and> askMap s \<noteq> [] \<and> 0 < Max ?B"
    then have "emitUpdate now s =
      Some \<lparr>timestamp = now, midPrice = ddiv (dadd (Max ?B) (Min ?A)) 2,
            bids = aggregateOrders (bidMap s) True (ddiv (dadd (Max ?B) (Min ?A)) 2),
            asks = aggregateOrders (askMap s) False (ddiv (dadd (Max ?B) (Min ?A)) 2)\<rparr>"
      using some by simp
    then show "\<exists>view. emitUpdate now s = Some view
        \<and> midPrice view = ddiv (dadd (Max ?B) (Min ?A)) 2
        \<and> delivered (frameCallback now s) = delivered s @ [view]"
      by (simp add: frameCallback_def)
  next
    assume "emitUpdate now s = Some v"
    then show "midPrice v = ddiv (dadd (Max ?B) (Min ?A)) 2" by (rule mid)
  next
    assume "emitUpdate now s = Some v \<and> double (Max ?B + Min ?A) = Max ?B + Min ?A
      \<and> double ((Max ?B + Min ?A) / 2) = (Max ?B + Min ?A) / 2"
    then show "midPrice v = (Max ?B + Min ?A) / 2"
      using mid by (simp add: ddiv_def dadd_def)
  qed
qed

theorem emitUpdate_mid_price_witness:
  "map_option midPrice (emitUpdate 0 (initial\<lparr>bidMap := [(99, 1)], askMap := [(101, 1)]\<rparr>))
     = Some 100
   \<and> emitUpdate 0
       (processEvent \<lparr>ev_U = 1, ev_u = 1, ev_b = None, ev_a = Some [(101, 0)]\<rparr>
         (initial\<lparr>bidMap := [(99, 1)], askMap := [(101, 1)]\<rparr>)) = None
   \<and> map_option midPrice (emitUpdate 0
       (processEvent \<lparr>ev_U = 2, ev_u = 2, ev_b = None, ev_a = Some [(103, 2)]\<rparr>
         (processEvent \<lparr>ev_U = 1, ev_u = 1, ev_b = None, ev_a = Some [(101, 0)]\<rparr>
           (initial\<lparr>bidMap := [(99, 1)], askMap := [(101, 1)]\<rparr>))))
     = Some 101"
  using emitUpdate_mid_price
    [of "processEvent \<lparr>ev_U = 1, ev_u = 1, ev_b = None, ev_a = Some [(101, 0)]\<rparr>
         (initial\<lparr>bidMap := [(99, 1)], askMap := [(101, 1)]\<rparr>)" 0]
    emitUpdate_mid_price
    [of "initial\<lparr>bidMap := [(99, 1)], askMap := [(101, 1)]\<rparr>" 0
        "\<lparr>timestamp = 0, midPrice = 100,
          bids = aggregateOrders [(99, 1)] True 100,
          asks = aggregateOrders [(101, 1)] False 100\<rparr>"]
  by (simp add: initial_def processEvent_def emitUpdate_def dadd_def ddiv_def double_numeral)

text \<open>
  Claim C6 as stated, with the mid price the exact mean of the two keys, fails. For a best
  bid at the double of 96009.22 and a best ask at the double of 96009.26 the sum is
  rounded, and the mid price delivered is neither the mean of the two doubles nor the
  double of 96009.24.
\<close>

theorem emitUpdate_mid_price_counterexample:
  "map_option midPrice (emitUpdate 0
      (initial\<lparr>bidMap := [(double (9600922 / 100), 1)],
               askMap := [(double (9600926 / 100), 1)]\<rparr>))
     \<noteq> Some ((double (9600922 / 100) + double (9600926 / 100)) / 2)
   \<and> map_option midPrice (emitUpdate 0
      (initial\<lparr>bidMap := [(double (9600922 / 100), 1)],
               askMap := [(double (9600926 / 100), 1)]\<rparr>))
     \<noteq> Some (double (9600924 / 100))"
proof -
  have pos: "0 < double (9600922 / 100)" by code_simp
  have m1: "ddiv (dadd (double (9600922 / 100)) (double (9600926 / 100))) 2
      \<noteq> (double (9600922 / 100) + double (9600926 / 100)) / 2"
    by code_simp
  have m2: "ddiv (dadd (double (9600922 / 100)) (double (9600926 / 100))) 2
      \<noteq> double (9600924 / 100)"
    by code_simp
  show ?thesis
    using pos m1 m2 by (simp add: initial_def emitUpdate_def Let_def)
qed

text \<open>
  Claim C9. An empty side is not the only case without a snapshot. The best-bid scan
  starts from 0 and the guard that follows returns when the scan still reads 0, so a bid
  map that is not empty but has no key above 0 is treated like an empty one, whatever the
  ask side holds.
\<close>

theorem emitUpdate_withheld_nonpositive_bids:
  assumes "bidMap s \<noteq> []" and "\<forall>k \<in> fst ` set (bidMap s). k \<le> 0"
  shows "emitUpdate now s = None \<and> delivered (frameCallback now s) = delivered s"
proof -
  have "scanBestBid (map fst (bidMap s)) 0 = 0"
    using assms(2) by (intro scanBestBid_floor) simp
  then have "emitUpdate now s = None"
    by (simp add: emitUpdate_def Let_def)
  then show ?thesis by (simp add: frameCallback_silent)
qed

theorem emitUpdate_withheld_nonpositive_bids_witness:
  "bidMap (initial\<lparr>bidMap := [(0, 1)], askMap := [(101, 1)]\<rparr>) \<noteq> []
   \<and> askMap (initial\<lparr>bidMap := [(0, 1)], askMap := [(101, 1)]\<rparr>) \<noteq> []
   \<and> emitUpdate 0 (initial\<lparr>bidMap := [(0, 1)], askMap := [(101, 1)]\<rparr>) = None"
  using emitUpdate_withheld_nonpositive_bids
    [of "initial\<lparr>bidMap := [(0, 1)], askMap := [(101, 1)]\<rparr>" 0]
  by (simp add: initial_def)

section \<open>Properties of the throttle\<close>

text \<open>
  A burst of depth updates on a synchronized session with nothing scheduled: the first
  one schedules the frame callback and sets the flag, the others only update the store.
\<close>

lemma processEvent_flags:
  "processEvent e (s\<lparr>processing := f, rafQueue := n\<rparr>)
     = (processEvent e s)\<lparr>processing := f, rafQueue := n\<rparr>"
  by (simp add: processEvent_def split: option.splits)

lemma fold_processEvent_flags:
  "fold processEvent es (s\<lparr>processing := f, rafQueue := n\<rparr>)
     = (fold processEvent es s)\<lparr>processing := f, rafQueue := n\<rparr>"
  by (induction es arbitrary: s) (simp_all add: processEvent_flags)

lemma onmessage_while_pending:
  "hasSnapshot s \<Longrightarrow> processing s \<Longrightarrow>
   fold onmessage (map DepthUpdate es) s = fold processEvent es s"
  by (induction es arbitrary: s) (simp_all add: processEvent_other_fields Let_def)

lemma onmessage_burst:
  assumes "hasSnapshot s" and "\<not> processing s" and "es \<noteq> []"
  shows "fold onmessage (map DepthUpdate es) s
     = (fold processEvent es s)\<lparr>processing := True, rafQueue := Suc (rafQueue s)\<rparr>"
proof (cases es)
  case Nil
  with assms(3) show ?thesis by simp
next
  case (Cons e rest)
  let ?s1 = "(processEvent e s)\<lparr>processing := True, rafQueue := Suc (rafQueue s)\<rparr>"
  have "onmessage (DepthUpdate e) s = ?s1"
    using assms(1,2) by (simp add: Let_def processEvent_other_fields)
  moreover have "fold onmessage (map DepthUpdate rest) ?s1 = fold processEvent rest ?s1"
    using assms(1) by (intro onmessage_while_pending) (simp_all add: processEvent_other_fields)
  ultimately show ?thesis
    by (simp add: Cons fold_processEvent_flags)
qed

lemma emitUpdate_store_only:
  assumes "bidMap s = bidMap t" and "askMap s = askMap t"
  shows "emitUpdate now s = emitUpdate now t"
  unfolding emitUpdate_def assms by (rule refl)

text \<open>
  Claim C8, as the code has it. On a synchronized session with no emission pending, any
  burst of one or more depth updates handled before the next display tick leaves at most
  one callback scheduled after each of them and exactly one after the last; the store is
  the one all the events of the burst have been applied to. At the tick,
  \<^const>\<open>emitUpdate\<close> runs once, on that store: the consumer receives one view when it
  produces one and none when it withholds. The flag is clear and nothing is scheduled
  afterwards.
\<close>

theorem burst_coalesced:
  assumes "hasSnapshot s" and "\<not> processing s" and "rafQueue s = 0"
    and "es \<noteq> []" and "k \<le> length es"
  shows "rafQueue (fold onmessage (map DepthUpdate (take k es)) s) \<le> 1
     \<and> rafQueue (fold onmessage (map DepthUpdate es) s) = 1
     \<and> bidMap (fold onmessage (map DepthUpdate es) s) = bidMap (fold processEvent es s)
     \<and> askMap (fold onmessage (map DepthUpdate es) s) = askMap (fold processEvent es s)
     \<and> delivered (animationFrame now (fold onmessage (map DepthUpdate es) s))
         = delivered s @ (case emitUpdate now (fold processEvent es s) of
                           None \<Rightarrow> [] | Some view \<Rightarrow> [view])
     \<and> rafQueue (animationFrame now (fold onmessage (map DepthUpdate es) s)) = 0
     \<and> \<not> processing (animationFrame now (fold onmessage (map DepthUpdate es) s))"
proof -
  let ?s' = "fold onmessage (map DepthUpdate es) s"
  have s': "?s' = (fold processEvent es s)\<lparr>processing := True, rafQueue := 1\<rparr>"
    using onmessage_burst [OF assms(1,2,4)] assms(3) by simp
  have prefix: "rafQueue (fold onmessage (map DepthUpdate (take k es)) s) \<le> 1"
  proof (cases "take k es = []")
    case True
    have same: "fold onmessage (map DepthUpdate (take k es)) s = s"
      unfolding True by simp
    show ?thesis unfolding same assms(3) by simp
  next
    case False
    then show ?thesis
      using onmessage_burst [OF assms(1,2) False] assms(3) by simp
  qed
  have emit: "emitUpdate now (?s'\<lparr>rafQueue := 0\<rparr>) = emitUpdate now (fold processEvent es s)"
    by (rule emitUpdate_store_only) (simp_all add: s')
  have frame: "animationFrame now ?s' = frameCallback now (?s'\<lparr>rafQueue := 0\<rparr>)"
    by (simp add: animationFrame_def s')
  have del: "delivered (?s'\<lparr>rafQueue := 0\<rparr>) = delivered s"
    by (simp add: s' fold_processEvent_other_fields)
  show ?thesis
    using prefix del
    by (simp add: frame frameCallback_def emit split: option.splits) (simp add: s')
qed

theorem burst_coalesced_witness:
  "rafQueue (fold onmessage
       (map DepthUpdate
          [\<lparr>ev_U = 101, ev_u = 101, ev_b = Some [(98, 2)], ev_a = None\<rparr>,
           \<lparr>ev_U = 102, ev_u = 102, ev_b = Some [(99, 0)], ev_a = Some [(103, 1)]\<rparr>])
       (fetchSnapshot
          (Some \<lparr>base_lastUpdateId = 100, base_bids = [(99, 1)], base_asks = [(101, 1)]\<rparr>)
          initial)) = 1
   \<and> map midPrice (delivered (animationFrame 0 (fold onmessage
       (map DepthUpdate
          [\<lparr>ev_U = 101, ev_u = 101, ev_b = Some [(98, 2)], ev_a = None\<rparr>,
           \<lparr>ev_U = 102, ev_u = 102, ev_b = Some [(99, 0)], ev_a = Some [(103, 1)]\<rparr>])
       (fetchSnapshot
          (Some \<lparr>base_lastUpdateId = 100, base_bids = [(99, 1)], base_asks = [(101, 1)]\<rparr>)
          initial)))) = [199 / 2]"
proof -
  have half: "ddiv (dadd 98 101) 2 = 199 / 2" by code_simp
  show ?thesis
    using burst_coalesced
      [of "fetchSnapshot
            (Some \<lparr>base_lastUpdateId = 100, base_bids = [(99, 1)], base_asks = [(101, 1)]\<rparr>)
            initial"
          "[\<lparr>ev_U = 101, ev_u = 101, ev_b = Some [(98, 2)], ev_a = None\<rparr>,
            \<lparr>ev_U = 102, ev_u = 102, ev_b = Some [(99, 0)], ev_a = Some [(103, 1)]\<rparr>]"
          2 0]
    by (simp add: fetchSnapshot_def initial_def processEvent_def emitUpdate_def Let_def half)
qed

text \<open>
  Claim C8 as stated has exactly one view emitted for every burst. A baseline with an
  empty ask side followed by a bid-only event schedules the callback, which then returns
  at the first guard of \<^const>\<open>emitUpdate\<close>: no view is emitted.
\<close>

theorem burst_without_view:
  "delivered (animationFrame 0 (fold onmessage
       (map DepthUpdate [\<lparr>ev_U = 101, ev_u = 101, ev_b = Some [(98, 2)], ev_a = None\<rparr>])
       (fetchSnapshot
          (Some \<lparr>base_lastUpdateId = 100, base_bids = [(99, 1)], base_asks = []\<rparr>)
          initial))) = []"
  by (simp add: fetchSnapshot_def initial_def processEvent_def emitUpdate_def
      animationFrame_def frameCallback_def)

end
